theory Spec2Isabelle
  imports Main "HOL-Library.Char_ord"
begin

section \<open>Values of the scraper\<close>

text \<open>
  The scraper \<^verbatim>\<open>beyblade_scraper.py\<close> works on Python \<^verbatim>\<open>str\<close> values. A string is
  modelled as a \<^typ>\<open>string\<close>, a \<^typ>\<open>char\<close> standing for a code point below 256 (ASCII
  and Latin-1); text with code points above 255 is outside the model. A \<^verbatim>\<open>dict\<close> is
  the list of its items in insertion order, which is the order \<^verbatim>\<open>.items()\<close> iterates
  in. Exceptions are values of \<open>py_error\<close>; a function that can raise returns
  \<open>py_error + 'a\<close>.
\<close>

datatype py_error = KeyError | StopIteration | OverflowError

type_synonym translation_table = "(string \<times> string) list"

text \<open>\<^verbatim>\<open>str.lower()\<close> on code points below 256: \<^verbatim>\<open>A-Z\<close> and the Latin-1 capitals
  (192 to 222, the multiplication sign 215 apart) move up by 32.\<close>

definition lower_char :: "char \<Rightarrow> char" where
  "lower_char c =
     (let n = (of_char c :: nat)
      in if (65 \<le> n \<and> n \<le> 90) \<or> (192 \<le> n \<and> n \<le> 222 \<and> n \<noteq> 215)
         then char_of (n + 32) else c)"

definition lower :: "string \<Rightarrow> string" where
  "lower s = map lower_char s"

text \<open>\<^verbatim>\<open>key in d\<close> and \<^verbatim>\<open>d[key]\<close>; the subscript raises \<^verbatim>\<open>KeyError\<close> on a missing key.\<close>

definition dict_contains :: "translation_table \<Rightarrow> string \<Rightarrow> bool" where
  "dict_contains d k = (k \<in> set (map fst d))"

definition dict_getitem :: "translation_table \<Rightarrow> string \<Rightarrow> py_error + string" where
  "dict_getitem d k = (case map_of d k of None \<Rightarrow> Inl KeyError | Some v \<Rightarrow> Inr v)"

section \<open>Translation of abbreviated suffixes\<close>

text \<open>
  \<^verbatim>\<open>
  def translate_suffix(suffix, translations):
      if suffix in translations:
          return translations[suffix]
      for key, value in translations.items():
          if key.lower() == suffix.lower():
              return value
      return suffix
  \<close>
  \<open>scan_items\<close> is the \<^verbatim>\<open>for\<close> loop: \<open>Some value\<close> when the loop returns, \<open>None\<close> when
  it runs to its end.
\<close>

fun scan_items :: "string \<Rightarrow> translation_table \<Rightarrow> string option" where
  "scan_items suffix [] = None"
| "scan_items suffix ((key, value) # items) =
     (if lower key = lower suffix then Some value else scan_items suffix items)"

definition translate_suffix :: "string \<Rightarrow> translation_table \<Rightarrow> py_error + string" where
  "translate_suffix suffix translations =
     (if dict_contains translations suffix then dict_getitem translations suffix
      else case scan_items suffix translations of
             Some value \<Rightarrow> Inr value
           | None \<Rightarrow> Inr suffix)"

text \<open>The precondition of the idempotence property, read on the keys of the table as the
  spec defines them (case-sensitive): \<open>y\<close> is a key and its entry is another string.\<close>

definition key_needing_translation :: "translation_table \<Rightarrow> string \<Rightarrow> bool" where
  "key_needing_translation table y =
     (case map_of table y of None \<Rightarrow> False | Some v \<Rightarrow> v \<noteq> y)"

text \<open>The same with the case-insensitive fallback taken into account: some key that is
  \<open>y\<close> up to case has an entry other than \<open>y\<close>.\<close>

definition matches_key_needing_translation :: "translation_table \<Rightarrow> string \<Rightarrow> bool" where
  "matches_key_needing_translation table y =
     list_ex (\<lambda>(k, v). lower k = lower y \<and> v \<noteq> y) table"

subsection \<open>Properties of \<open>translate_suffix\<close>\<close>

lemma dict_getitem_member:
  "dict_contains d k \<Longrightarrow> \<exists>v. dict_getitem d k = Inr v \<and> map_of d k = Some v \<and> (k, v) \<in> set d"
proof -
  assume "dict_contains d k"
  then have "k \<in> fst ` set d" by (simp add: dict_contains_def)
  then obtain v where v: "map_of d k = Some v"
    by (metis map_of_eq_None_iff not_Some_eq)
  then have "(k, v) \<in> set d" by (rule map_of_SomeD)
  with v show ?thesis by (simp add: dict_getitem_def)
qed

lemma scan_items_None:
  "scan_items s d = None \<longleftrightarrow> (\<forall>(k, v) \<in> set d. lower k \<noteq> lower s)"
  by (induction d) (auto split: if_splits)

lemma scan_items_Some:
  "scan_items s d = Some v \<Longrightarrow> \<exists>k. (k, v) \<in> set d \<and> lower k = lower s"
  by (induction d) (auto split: if_splits)

lemma scan_items_first:
  "i < length d \<Longrightarrow> lower (fst (d ! i)) = lower s \<Longrightarrow>
   (\<forall>j<i. lower (fst (d ! j)) \<noteq> lower s) \<Longrightarrow> scan_items s d = Some (snd (d ! i))"
proof (induction d arbitrary: i)
  case Nil
  then show ?case by simp
next
  case (Cons e d)
  obtain k v where e: "e = (k, v)" by (cases e)
  show ?case
  proof (cases i)
    case 0
    with Cons.prems e show ?thesis by simp
  next
    case (Suc i')
    have "lower k \<noteq> lower s" using Cons.prems(3) Suc e by fastforce
    moreover have "scan_items s d = Some (snd (d ! i'))"
    proof (rule Cons.IH)
      show "i' < length d" using Cons.prems(1) Suc by simp
      show "lower (fst (d ! i')) = lower s" using Cons.prems(2) Suc by simp
      show "\<forall>j<i'. lower (fst (d ! j)) \<noteq> lower s"
        using Cons.prems(3) Suc by fastforce
    qed
    ultimately show ?thesis using e Suc by simp
  qed
qed

lemma translate_suffix_unmatched:
  "\<forall>(k, v) \<in> set d. lower k \<noteq> lower s \<Longrightarrow> translate_suffix s d = Inr s"
proof -
  assume h: "\<forall>(k, v) \<in> set d. lower k \<noteq> lower s"
  then have "\<not> dict_contains d s" by (fastforce simp: dict_contains_def)
  moreover have "scan_items s d = None" using h by (simp add: scan_items_None)
  ultimately show ?thesis by (simp add: translate_suffix_def)
qed

lemma translate_suffix_cases:
  "\<exists>r. translate_suffix suffix table = Inr r \<and> (r = suffix \<or> r \<in> set (map snd table))"
proof (cases "dict_contains table suffix")
  case True
  then obtain v where "dict_getitem table suffix = Inr v" "(suffix, v) \<in> set table"
    using dict_getitem_member by blast
  with True show ?thesis by (force simp: translate_suffix_def)
next
  case False
  show ?thesis
  proof (cases "scan_items suffix table")
    case None
    with False show ?thesis by (simp add: translate_suffix_def)
  next
    case (Some v)
    then obtain k where "(k, v) \<in> set table" using scan_items_Some by blast
    with Some False show ?thesis by (force simp: translate_suffix_def)
  qed
qed

text \<open>
  Claim C4. For every table and suffix, \<open>translate_suffix\<close> first looks the suffix up
  exactly (case-sensitive) and returns its entry; when the suffix is not a key, it returns
  the entry of the first key, in the iteration order of the table, that equals the suffix
  up to case; when there is no such key either, it returns the suffix unchanged.
\<close>

theorem translate_suffix_lookup_order:
  "(map_of table suffix = Some v \<longrightarrow> translate_suffix suffix table = Inr v) \<and>
   (\<not> dict_contains table suffix \<and> i < length table \<and>
      lower (fst (table ! i)) = lower suffix \<and>
      (\<forall>j<i. lower (fst (table ! j)) \<noteq> lower suffix)
      \<longrightarrow> translate_suffix suffix table = Inr (snd (table ! i))) \<and>
   (\<not> dict_contains table suffix \<and> (\<forall>(k, w) \<in> set table. lower k \<noteq> lower suffix)
      \<longrightarrow> translate_suffix suffix table = Inr suffix)"
proof (intro conjI impI)
  assume "map_of table suffix = Some v"
  then have "dict_contains table suffix" and "dict_getitem table suffix = Inr v"
    by (auto simp: dict_contains_def dict_getitem_def dest: map_of_SomeD intro: rev_image_eqI)
  then show "translate_suffix suffix table = Inr v" by (simp add: translate_suffix_def)
next
  assume h: "\<not> dict_contains table suffix \<and> i < length table \<and>
      lower (fst (table ! i)) = lower suffix \<and>
      (\<forall>j<i. lower (fst (table ! j)) \<noteq> lower suffix)"
  then have "scan_items suffix table = Some (snd (table ! i))"
    by (simp add: scan_items_first)
  with h show "translate_suffix suffix table = Inr (snd (table ! i))"
    by (simp add: translate_suffix_def)
next
  assume "\<not> dict_contains table suffix \<and> (\<forall>(k, w) \<in> set table. lower k \<noteq> lower suffix)"
  then show "translate_suffix suffix table = Inr suffix"
    by (simp add: translate_suffix_unmatched)
qed

theorem translate_suffix_lookup_order_witness:
  "translate_suffix ''H'' [(''h'', ''Low''), (''H'', ''Hexa'')] = Inr ''Hexa'' \<and>
   translate_suffix ''lf'' [(''H'', ''Hexa''), (''LF'', ''LowFlat''), (''Lf'', ''Other'')]
     = Inr ''LowFlat'' \<and>
   translate_suffix ''Zap'' [(''H'', ''Hexa''), (''LF'', ''LowFlat'')] = Inr ''Zap''"
proof -
  let ?t1 = "[(''h'', ''Low''), (''H'', ''Hexa'')]"
  let ?t2 = "[(''H'', ''Hexa''), (''LF'', ''LowFlat''), (''Lf'', ''Other'')]"
  let ?t3 = "[(''H'', ''Hexa''), (''LF'', ''LowFlat'')]"
  have a: "map_of ?t1 ''H'' = Some ''Hexa''" by simp
  have b0: "lower (fst (?t2 ! 0)) \<noteq> lower ''lf''" by code_simp
  have "\<not> dict_contains ?t2 ''lf'' \<and> (1::nat) < length ?t2 \<and>
      lower (fst (?t2 ! 1)) = lower ''lf''"
    by code_simp
  then have b: "\<not> dict_contains ?t2 ''lf'' \<and> (1::nat) < length ?t2 \<and>
      lower (fst (?t2 ! 1)) = lower ''lf'' \<and>
      (\<forall>j<1. lower (fst (?t2 ! j)) \<noteq> lower ''lf'')"
    using b0 by simp
  have c: "\<not> dict_contains ?t3 ''Zap'' \<and> (\<forall>(k, w) \<in> set ?t3. lower k \<noteq> lower ''Zap'')"
    by code_simp
  have "translate_suffix ''H'' ?t1 = Inr ''Hexa''"
    using translate_suffix_lookup_order [of ?t1 "''H''" "''Hexa''"] a by blast
  moreover have "translate_suffix ''lf'' ?t2 = Inr (snd (?t2 ! 1))"
    using translate_suffix_lookup_order [of ?t2 "''lf''" _ 1] b by blast
  moreover have "translate_suffix ''Zap'' ?t3 = Inr ''Zap''"
    using translate_suffix_lookup_order [of ?t3 "''Zap''"] c by blast
  ultimately show ?thesis by simp
qed

text \<open>
  Claim C5, as the spec states it: whenever \<open>translate(table, x)\<close> is not a key of the table
  with an entry other than itself, translating it again changes nothing. The table
  \<open>{"H": "hexa", "HEXA": "Zap"}\<close> refutes it: \<open>"H"\<close> translates to \<open>"hexa"\<close>, which is
  not a key, and the case-insensitive scan translates \<open>"hexa"\<close> on to \<open>"Zap"\<close>.
\<close>

theorem translate_suffix_not_idempotent:
  "translate_suffix ''H'' [(''H'', ''hexa''), (''HEXA'', ''Zap'')] = Inr ''hexa'' \<and>
   \<not> key_needing_translation [(''H'', ''hexa''), (''HEXA'', ''Zap'')] ''hexa'' \<and>
   translate_suffix ''hexa'' [(''H'', ''hexa''), (''HEXA'', ''Zap'')] = Inr ''Zap'' \<and>
   ''Zap'' \<noteq> ''hexa''"
  by code_simp

text \<open>
  Claim C5, amended: whenever no key that equals \<open>translate(table, x)\<close> up to case (the
  key \<open>translate(table, x)\<close> itself included) has an entry other than
  \<open>translate(table, x)\<close>, translating it again changes nothing.
\<close>

theorem translate_suffix_idempotent:
  assumes "translate_suffix x table = Inr y"
    and "\<not> matches_key_needing_translation table y"
  shows "translate_suffix y table = Inr y"
proof -
  have all: "\<forall>(k, v) \<in> set table. lower k = lower y \<longrightarrow> v = y"
    using assms(2) by (auto simp: matches_key_needing_translation_def list_ex_iff)
  show ?thesis
  proof (cases "dict_contains table y")
    case True
    then obtain v where v: "dict_getitem table y = Inr v" "(y, v) \<in> set table"
      using dict_getitem_member by blast
    then have "v = y" using all by auto
    with v True show ?thesis by (simp add: translate_suffix_def)
  next
    case False
    show ?thesis
    proof (cases "scan_items y table")
      case None
      with False show ?thesis by (simp add: translate_suffix_def)
    next
      case (Some v)
      then obtain k where "(k, v) \<in> set table" "lower k = lower y"
        using scan_items_Some by blast
      then have "v = y" using all by auto
      with Some False show ?thesis by (simp add: translate_suffix_def)
    qed
  qed
qed

theorem translate_suffix_idempotent_witness:
  "translate_suffix ''h'' [(''H'', ''Hexa''), (''LF'', ''LowFlat'')] = Inr ''Hexa'' \<and>
   \<not> matches_key_needing_translation [(''H'', ''Hexa''), (''LF'', ''LowFlat'')] ''Hexa'' \<and>
   translate_suffix ''Hexa'' [(''H'', ''Hexa''), (''LF'', ''LowFlat'')] = Inr ''Hexa''"
proof -
  let ?t = "[(''H'', ''Hexa''), (''LF'', ''LowFlat'')]"
  have a: "translate_suffix ''h'' ?t = Inr ''Hexa''"
    by code_simp
  have b: "\<not> matches_key_needing_translation ?t ''Hexa''"
    by code_simp
  show ?thesis using translate_suffix_idempotent [OF a b] a b by simp
qed

text \<open>
  Claim C10. For every table and suffix, \<open>translate_suffix\<close> returns normally (the
  subscript \<^verbatim>\<open>translations[suffix]\<close> is only reached for a key that is present), and its
  result is the suffix itself or a value stored in the table.
\<close>

theorem translate_suffix_result:
  "\<exists>r. translate_suffix suffix table = Inr r \<and> (r = suffix \<or> r \<in> set (map snd table))"
  by (rule translate_suffix_cases)

section \<open>The record pattern\<close>

text \<open>
  \<open>extract_combinations\<close> searches each post text with
  \<^verbatim>\<open>([A-Za-z]+(?:[ \t]+[A-Za-z]+)*)[ \t]+(\d+-\d+)([A-Za-z]+(?:[ \t]+[A-Za-z]+)*?)(?=\s*(?:\n|$|,|\())\<close>
  under \<^verbatim>\<open>re.MULTILINE\<close>. The pattern has no atomic group and no possessive quantifier,
  so the backtracking matcher of \<^verbatim>\<open>re\<close> returns the first successful path in priority
  order: a greedy quantifier tries more repetitions before fewer, a lazy one fewer before
  more. A sub-pattern is modelled as the list of all its ways to match a prefix of the
  input, in that order, each as the pair of the matched text and the remaining input.

  The character classes, on code points below 256: \<^verbatim>\<open>[A-Za-z]\<close>, \<^verbatim>\<open>[ \t]\<close>, \<^verbatim>\<open>\d\<close>
  (only \<^verbatim>\<open>0-9\<close> are decimal digits there) and \<^verbatim>\<open>\s\<close> (the characters for which
  \<^verbatim>\<open>str.isspace\<close> holds, which \<^verbatim>\<open>str.strip\<close> removes as well).
\<close>

definition is_alpha :: "char \<Rightarrow> bool" where
  "is_alpha c = ((CHR ''A'' \<le> c \<and> c \<le> CHR ''Z'') \<or> (CHR ''a'' \<le> c \<and> c \<le> CHR ''z''))"

definition is_blank :: "char \<Rightarrow> bool" where
  "is_blank c = (c = CHR '' '' \<or> c = CHR 0x09)"

definition is_digit :: "char \<Rightarrow> bool" where
  "is_digit c = (CHR ''0'' \<le> c \<and> c \<le> CHR ''9'')"

definition is_space :: "char \<Rightarrow> bool" where
  "is_space c = (c \<in> set [CHR 0x09, CHR 0x0A, CHR 0x0B, CHR 0x0C, CHR 0x0D, CHR 0x1C,
                           CHR 0x1D, CHR 0x1E, CHR 0x1F, CHR 0x20, CHR 0x85, CHR 0xA0])"

type_synonym rx = "string \<Rightarrow> (string \<times> string) list"

text \<open>\<^verbatim>\<open>[class]+\<close>, greedy: the longest run first, then one character less at a time.
  \<^verbatim>\<open>[class]*\<close> adds the empty match as the last resort.\<close>

fun plus_greedy :: "(char \<Rightarrow> bool) \<Rightarrow> rx" where
  "plus_greedy P [] = []"
| "plus_greedy P (c # cs) =
     (if P c then map (\<lambda>(m, r). (c # m, r)) (plus_greedy P cs) @ [([c], cs)] else [])"

definition star_greedy :: "(char \<Rightarrow> bool) \<Rightarrow> rx" where
  "star_greedy P s = plus_greedy P s @ [([], s)]"

text \<open>A literal character.\<close>

definition lit :: "char \<Rightarrow> rx" where
  "lit c s = (case s of [] \<Rightarrow> [] | d # r \<Rightarrow> if d = c then [([c], r)] else [])"

text \<open>Concatenation: every way of the first part, in order, continued by every way of the
  second.\<close>

fun then_all :: "(string \<times> string) list \<Rightarrow> rx \<Rightarrow> (string \<times> string) list" where
  "then_all [] m = []"
| "then_all ((a, r) # alts) m = map (\<lambda>(b, r'). (a @ b, r')) (m r) @ then_all alts m"

definition seq :: "rx \<Rightarrow> rx \<Rightarrow> rx" where
  "seq m1 m2 s = then_all (m1 s) m2"

text \<open>\<^verbatim>\<open>[ \t]+[A-Za-z]+\<close>, the body of the two groups \<^verbatim>\<open>(?:...)\<close>.\<close>

definition next_word :: rx where
  "next_word = seq (plus_greedy is_blank) (plus_greedy is_alpha)"

lemma then_all_set:
  "(x, r') \<in> set (then_all alts m) \<longleftrightarrow>
   (\<exists>a r b. (a, r) \<in> set alts \<and> (b, r') \<in> set (m r) \<and> x = a @ b)"
  by (induction alts m rule: then_all.induct) auto

lemma then_all_cong [fundef_cong]:
  assumes "alts = alts'" and "\<And>a r. (a, r) \<in> set alts' \<Longrightarrow> m r = m' r"
  shows "then_all alts m = then_all alts' m'"
proof -
  have "(\<forall>(a, r) \<in> set xs. m r = m' r) \<Longrightarrow> then_all xs m = then_all xs m'" for xs
    by (induction xs) auto
  then show ?thesis using assms by blast
qed

lemma plus_greedy_set:
  "(a, r) \<in> set (plus_greedy P s) \<Longrightarrow> s = a @ r \<and> a \<noteq> [] \<and> (\<forall>c \<in> set a. P c)"
  by (induction s arbitrary: a r) (auto split: if_splits)

lemma next_word_set:
  "(a, r) \<in> set (next_word s) \<Longrightarrow>
   s = a @ r \<and> a \<noteq> [] \<and> (\<forall>c \<in> set a. is_alpha c \<or> is_blank c)"
  unfolding next_word_def seq_def then_all_set
  by (auto dest!: plus_greedy_set)

lemma next_word_last: "(a, r) \<in> set (next_word s) \<Longrightarrow> is_alpha (last a)"
  unfolding next_word_def seq_def then_all_set
  by (auto dest!: plus_greedy_set)

text \<open>\<^verbatim>\<open>(?:[ \t]+[A-Za-z]+)*\<close>, greedy: one more word first, the empty match last.
  \<^verbatim>\<open>(?:[ \t]+[A-Za-z]+)*?\<close>, lazy: the empty match first.\<close>

function words_greedy :: rx where
  "words_greedy s = then_all (next_word s) words_greedy @ [([], s)]"
  by pat_completeness auto
termination
  by (relation "measure length") (auto dest: next_word_set)

function words_lazy :: rx where
  "words_lazy s = ([], s) # then_all (next_word s) words_lazy"
  by pat_completeness auto
termination
  by (relation "measure length") (auto dest: next_word_set)

declare words_greedy.simps [simp del] words_lazy.simps [simp del]

text \<open>Group 1, \<^verbatim>\<open>[A-Za-z]+(?:[ \t]+[A-Za-z]+)*\<close>; group 2, \<^verbatim>\<open>\d+-\d+\<close>; group 3,
  \<^verbatim>\<open>[A-Za-z]+(?:[ \t]+[A-Za-z]+)*?\<close>.\<close>

definition name_greedy :: rx where
  "name_greedy = seq (plus_greedy is_alpha) words_greedy"

definition ratio :: rx where
  "ratio = seq (plus_greedy is_digit) (seq (lit CHR ''-'') (plus_greedy is_digit))"

definition name_lazy :: rx where
  "name_lazy = seq (plus_greedy is_alpha) words_lazy"

text \<open>\<^verbatim>\<open>(?:\n|$|,|\()\<close>: under \<^verbatim>\<open>re.MULTILINE\<close>, \<^verbatim>\<open>$\<close> holds at the end of the text and
  before a line break. The lookahead \<^verbatim>\<open>(?=\s*(?:...))\<close> consumes nothing and holds
  when some way of \<^verbatim>\<open>\s*\<close> leads to a terminator.\<close>

definition terminator :: "string \<Rightarrow> bool" where
  "terminator s =
     (case s of [] \<Rightarrow> True | c # _ \<Rightarrow> c = CHR 0x0A \<or> c = CHR '','' \<or> c = CHR ''('')"

definition lookahead :: "string \<Rightarrow> bool" where
  "lookahead s = list_ex (\<lambda>(w, r). terminator r) (star_greedy is_space s)"

text \<open>The whole pattern at the start of \<open>s\<close>: every successful path, in priority order, as
  the three groups and the input after group 3. The match that \<^verbatim>\<open>re\<close> reports at this
  position is the first one.\<close>

fun bind_alts :: "('a \<times> string) list \<Rightarrow> ('a \<Rightarrow> string \<Rightarrow> 'b list) \<Rightarrow> 'b list" where
  "bind_alts [] k = []"
| "bind_alts ((a, r) # alts) k = k a r @ bind_alts alts k"

definition pattern :: "string \<Rightarrow> (string \<times> string \<times> string \<times> string) list" where
  "pattern s =
     bind_alts (name_greedy s) (\<lambda>g1 r1.
       bind_alts (plus_greedy is_blank r1) (\<lambda>_ r2.
         bind_alts (ratio r2) (\<lambda>g2 r3.
           bind_alts (name_lazy r3) (\<lambda>g3 r4.
             if lookahead r4 then [(g1, g2, g3, r4)] else []))))"

definition match_at :: "string \<Rightarrow> (string \<times> string \<times> string \<times> string) option" where
  "match_at s = (case pattern s of [] \<Rightarrow> None | m # _ \<Rightarrow> Some m)"

lemma bind_alts_set:
  "x \<in> set (bind_alts alts k) \<longleftrightarrow> (\<exists>a r. (a, r) \<in> set alts \<and> x \<in> set (k a r))"
  by (induction alts k rule: bind_alts.induct) auto

lemma words_greedy_set:
  "(a, r) \<in> set (words_greedy s) \<Longrightarrow> s = a @ r \<and> (\<forall>c \<in> set a. is_alpha c \<or> is_blank c)"
proof (induction s arbitrary: a r rule: words_greedy.induct)
  case (1 s)
  from "1.prems" have "(a, r) \<in> set (then_all (next_word s) words_greedy) \<or> (a, r) = ([], s)"
    by (subst (asm) words_greedy.simps) auto
  then show ?case
  proof
    assume "(a, r) \<in> set (then_all (next_word s) words_greedy)"
    then obtain w r1 b where w: "(w, r1) \<in> set (next_word s)"
      and b: "(b, r) \<in> set (words_greedy r1)" and a: "a = w @ b"
      unfolding then_all_set by blast
    from "1.IH" [OF w b] next_word_set [OF w] a show ?thesis by auto
  next
    assume "(a, r) = ([], s)"
    then show ?thesis by simp
  qed
qed

lemma words_lazy_set:
  "(a, r) \<in> set (words_lazy s) \<Longrightarrow> s = a @ r \<and> (\<forall>c \<in> set a. is_alpha c \<or> is_blank c)"
proof (induction s arbitrary: a r rule: words_lazy.induct)
  case (1 s)
  from "1.prems" have "(a, r) = ([], s) \<or> (a, r) \<in> set (then_all (next_word s) words_lazy)"
    by (subst (asm) words_lazy.simps) auto
  then show ?case
  proof
    assume "(a, r) \<in> set (then_all (next_word s) words_lazy)"
    then obtain w r1 b where w: "(w, r1) \<in> set (next_word s)"
      and b: "(b, r) \<in> set (words_lazy r1)" and a: "a = w @ b"
      unfolding then_all_set by blast
    from "1.IH" [OF w b] next_word_set [OF w] a show ?thesis by auto
  next
    assume "(a, r) = ([], s)"
    then show ?thesis by simp
  qed
qed

lemma words_greedy_last:
  "(a, r) \<in> set (words_greedy s) \<Longrightarrow> a = [] \<or> is_alpha (last a)"
proof (induction s arbitrary: a r rule: words_greedy.induct)
  case (1 s)
  from "1.prems" have "(a, r) \<in> set (then_all (next_word s) words_greedy) \<or> (a, r) = ([], s)"
    by (subst (asm) words_greedy.simps) auto
  then show ?case
  proof
    assume "(a, r) \<in> set (then_all (next_word s) words_greedy)"
    then obtain w r1 b where w: "(w, r1) \<in> set (next_word s)"
      and b: "(b, r) \<in> set (words_greedy r1)" and a: "a = w @ b"
      unfolding then_all_set by blast
    from "1.IH" [OF w b] next_word_last [OF w] next_word_set [OF w] a show ?thesis
      by (cases "b = []") auto
  next
    assume "(a, r) = ([], s)"
    then show ?thesis by simp
  qed
qed

lemma words_lazy_last:
  "(a, r) \<in> set (words_lazy s) \<Longrightarrow> a = [] \<or> is_alpha (last a)"
proof (induction s arbitrary: a r rule: words_lazy.induct)
  case (1 s)
  from "1.prems" have "(a, r) = ([], s) \<or> (a, r) \<in> set (then_all (next_word s) words_lazy)"
    by (subst (asm) words_lazy.simps) auto
  then show ?case
  proof
    assume "(a, r) \<in> set (then_all (next_word s) words_lazy)"
    then obtain w r1 b where w: "(w, r1) \<in> set (next_word s)"
      and b: "(b, r) \<in> set (words_lazy r1)" and a: "a = w @ b"
      unfolding then_all_set by blast
    from "1.IH" [OF w b] next_word_last [OF w] next_word_set [OF w] a show ?thesis
      by (cases "b = []") auto
  next
    assume "(a, r) = ([], s)"
    then show ?thesis by simp
  qed
qed

lemma name_greedy_set:
  "(a, r) \<in> set (name_greedy s) \<Longrightarrow>
   s = a @ r \<and> a \<noteq> [] \<and> (\<forall>c \<in> set a. is_alpha c \<or> is_blank c)"
  unfolding name_greedy_def seq_def then_all_set
  by (auto dest!: plus_greedy_set words_greedy_set)

lemma name_lazy_set:
  "(a, r) \<in> set (name_lazy s) \<Longrightarrow>
   s = a @ r \<and> a \<noteq> [] \<and> (\<forall>c \<in> set a. is_alpha c \<or> is_blank c)"
  unfolding name_lazy_def seq_def then_all_set
  by (auto dest!: plus_greedy_set words_lazy_set)

lemma lit_set: "(a, r) \<in> set (lit c s) \<Longrightarrow> s = a @ r \<and> a = [c]"
  by (auto simp: lit_def split: list.splits if_splits)

lemma ratio_set:
  "(a, r) \<in> set (ratio s) \<Longrightarrow>
   s = a @ r \<and> a \<noteq> [] \<and> (\<forall>c \<in> set a. is_digit c \<or> c = CHR ''-'')"
  unfolding ratio_def seq_def then_all_set
  by (auto dest!: plus_greedy_set lit_set)

text \<open>The grammar of a record, stated on the text and without the matcher. A name is one
  or more words of letters separated by runs of blanks, that is, a non-empty text of
  letters and blanks that begins and ends with a letter. A ratio is a non-empty run of
  digits, a dash and a non-empty run of digits.\<close>

definition is_name :: "string \<Rightarrow> bool" where
  "is_name g \<longleftrightarrow>
     g \<noteq> [] \<and> list_all (\<lambda>c. is_alpha c \<or> is_blank c) g \<and> is_alpha (hd g) \<and> is_alpha (last g)"

definition is_ratio :: "string \<Rightarrow> bool" where
  "is_ratio g \<longleftrightarrow>
     takeWhile is_digit g \<noteq> [] \<and>
     (case dropWhile is_digit g of
        [] \<Rightarrow> False
      | c # ds \<Rightarrow> c = CHR ''-'' \<and> ds \<noteq> [] \<and> list_all is_digit ds)"

text \<open>A record of a text: after \<open>pre\<close> come a name \<open>g1\<close>, a non-empty run of blanks
  \<open>b\<close>, a ratio \<open>g2\<close> and a name \<open>g3\<close>, and the rest of the text passes the lookahead.
  Every path of the pattern is one.\<close>

definition record_in ::
  "string \<Rightarrow> string \<Rightarrow> string \<Rightarrow> string \<Rightarrow> string \<Rightarrow> string \<Rightarrow> string \<Rightarrow> bool" where
  "record_in text pre g1 b g2 g3 rest \<longleftrightarrow>
     text = pre @ g1 @ b @ g2 @ g3 @ rest \<and>
     is_name g1 \<and> b \<noteq> [] \<and> list_all is_blank b \<and> is_ratio g2 \<and> is_name g3 \<and>
     lookahead rest"

lemma dash_not_digit: "\<not> is_digit CHR ''-''"
  by (simp add: is_digit_def)

lemma is_ratioI:
  assumes "d1 \<noteq> []" "\<forall>c \<in> set d1. is_digit c" "d2 \<noteq> []" "\<forall>c \<in> set d2. is_digit c"
  shows "is_ratio (d1 @ CHR ''-'' # d2)"
proof -
  have "takeWhile is_digit (d1 @ CHR ''-'' # d2) = d1"
    using assms(2) dash_not_digit by (simp add: takeWhile_tail)
  moreover have "dropWhile is_digit (d1 @ CHR ''-'' # d2) = CHR ''-'' # d2"
    using assms(2) dash_not_digit by (simp add: dropWhile_append1 dropWhile_append2)
  ultimately show ?thesis using assms by (simp add: is_ratio_def list_all_iff)
qed

lemma is_ratio_chars:
  assumes "is_ratio g"
  shows "g \<noteq> [] \<and> (\<forall>c \<in> set g. is_digit c \<or> c = CHR ''-'')"
proof -
  from assms obtain ds where d: "dropWhile is_digit g = CHR ''-'' # ds"
    and ds: "list_all is_digit ds" and t: "takeWhile is_digit g \<noteq> []"
    by (auto simp: is_ratio_def split: list.splits)
  have g: "g = takeWhile is_digit g @ CHR ''-'' # ds"
    using d takeWhile_dropWhile_id [of is_digit g] by simp
  have "\<forall>c \<in> set (takeWhile is_digit g). is_digit c" by (auto dest: set_takeWhileD)
  with ds have "\<forall>c \<in> set (takeWhile is_digit g @ CHR ''-'' # ds). is_digit c \<or> c = CHR ''-''"
    by (auto simp: list_all_iff)
  with g t show ?thesis by (metis append_is_Nil_conv)
qed

lemma is_name_chars: "is_name g \<Longrightarrow> g \<noteq> [] \<and> (\<forall>c \<in> set g. is_alpha c \<or> is_blank c)"
  by (simp add: is_name_def list_all_iff)

lemma ratio_is_ratio: "(a, r) \<in> set (ratio s) \<Longrightarrow> is_ratio a"
proof -
  assume "(a, r) \<in> set (ratio s)"
  then obtain d1 r1 x where d1: "(d1, r1) \<in> set (plus_greedy is_digit s)"
    and x: "(x, r) \<in> set (seq (lit CHR ''-'') (plus_greedy is_digit) r1)" and a: "a = d1 @ x"
    unfolding ratio_def seq_def [of "plus_greedy is_digit"] then_all_set by blast
  from x obtain l r2 d2 where l: "(l, r2) \<in> set (lit CHR ''-'' r1)"
    and d2: "(d2, r) \<in> set (plus_greedy is_digit r2)" and xx: "x = l @ d2"
    unfolding seq_def then_all_set by blast
  from lit_set [OF l] have "l = [CHR ''-'']" by simp
  with a xx have "a = d1 @ CHR ''-'' # d2" by simp
  with plus_greedy_set [OF d1] plus_greedy_set [OF d2] show ?thesis
    by (simp add: is_ratioI)
qed

lemma name_parts_is_name:
  assumes "w \<noteq> []" "\<forall>c \<in> set w. is_alpha c"
    and "\<forall>c \<in> set ws. is_alpha c \<or> is_blank c" and "ws = [] \<or> is_alpha (last ws)"
  shows "is_name (w @ ws)"
proof -
  have "is_alpha (hd (w @ ws))" using assms(1,2) by (cases w) auto
  moreover have "is_alpha (last (w @ ws))" using assms(1,2,4) by (cases "ws = []") auto
  ultimately show ?thesis using assms by (auto simp: is_name_def list_all_iff)
qed

lemma name_greedy_is_name: "(a, r) \<in> set (name_greedy s) \<Longrightarrow> is_name a"
proof -
  assume "(a, r) \<in> set (name_greedy s)"
  then obtain w r1 ws where w: "(w, r1) \<in> set (plus_greedy is_alpha s)"
    and ws: "(ws, r) \<in> set (words_greedy r1)" and a: "a = w @ ws"
    unfolding name_greedy_def seq_def then_all_set by blast
  from plus_greedy_set [OF w] words_greedy_set [OF ws] words_greedy_last [OF ws] a
  show ?thesis by (simp add: name_parts_is_name)
qed

lemma name_lazy_is_name: "(a, r) \<in> set (name_lazy s) \<Longrightarrow> is_name a"
proof -
  assume "(a, r) \<in> set (name_lazy s)"
  then obtain w r1 ws where w: "(w, r1) \<in> set (plus_greedy is_alpha s)"
    and ws: "(ws, r) \<in> set (words_lazy r1)" and a: "a = w @ ws"
    unfolding name_lazy_def seq_def then_all_set by blast
  from plus_greedy_set [OF w] words_lazy_set [OF ws] words_lazy_last [OF ws] a
  show ?thesis by (simp add: name_parts_is_name)
qed

lemma record_in_chars:
  assumes "record_in text pre g1 b g2 g3 rest"
  shows "g1 \<noteq> []" "\<forall>c \<in> set g1. is_alpha c \<or> is_blank c"
    "g2 \<noteq> []" "\<forall>c \<in> set g2. is_digit c \<or> c = CHR ''-''"
    "g3 \<noteq> []" "\<forall>c \<in> set g3. is_alpha c \<or> is_blank c"
  using assms is_name_chars [of g1] is_name_chars [of g3] is_ratio_chars [of g2]
  by (simp_all add: record_in_def)

lemma pattern_set:
  "(g1, g2, g3, rest) \<in> set (pattern s) \<Longrightarrow> \<exists>b. record_in s [] g1 b g2 g3 rest"
proof -
  assume "(g1, g2, g3, rest) \<in> set (pattern s)"
  then obtain r1 b r2 r3 where
    g1: "(g1, r1) \<in> set (name_greedy s)" and b: "(b, r2) \<in> set (plus_greedy is_blank r1)"
    and g2: "(g2, r3) \<in> set (ratio r2)" and g3: "(g3, rest) \<in> set (name_lazy r3)"
    and la: "lookahead rest"
    unfolding pattern_def bind_alts_set by (auto split: if_splits)
  from name_greedy_set [OF g1] plus_greedy_set [OF b] ratio_set [OF g2] name_lazy_set [OF g3]
    name_greedy_is_name [OF g1] ratio_is_ratio [OF g2] name_lazy_is_name [OF g3] la
  have "record_in s [] g1 b g2 g3 rest"
    by (simp add: record_in_def list_all_iff)
  then show ?thesis ..
qed

lemma match_at_record:
  "match_at s = Some (g1, g2, g3, rest) \<Longrightarrow> \<exists>b. record_in s [] g1 b g2 g3 rest"
proof -
  assume "match_at s = Some (g1, g2, g3, rest)"
  then have "(g1, g2, g3, rest) \<in> set (pattern s)"
    by (auto simp: match_at_def split: list.splits)
  then show ?thesis by (rule pattern_set)
qed

lemma match_at_shorter:
  "match_at s = Some (g1, g2, g3, rest) \<Longrightarrow> length rest < length s"
proof -
  assume "match_at s = Some (g1, g2, g3, rest)"
  then obtain b where r: "record_in s [] g1 b g2 g3 rest" using match_at_record by blast
  from record_in_chars(1) [OF r] r show ?thesis by (simp add: record_in_def)
qed

text \<open>
  \<^verbatim>\<open>re.findall(pattern, text, re.MULTILINE)\<close>: the text is scanned from left to right; a
  match at the current position contributes the tuple of its three groups and the scan
  resumes after group 3 (the lookahead consumes nothing, and a match is never empty);
  without a match the scan moves on by one character. At the end of the text the pattern,
  which needs a letter, cannot match.
\<close>

function findall :: "string \<Rightarrow> (string \<times> string \<times> string) list" where
  "findall [] = []"
| "findall (c # cs) =
     (case match_at (c # cs) of
        Some (g1, g2, g3, rest) \<Rightarrow> (g1, g2, g3) # findall rest
      | None \<Rightarrow> findall cs)"
  by pat_completeness auto
termination
  by (relation "measure length") (auto dest: match_at_shorter)

section \<open>Extraction of combinations\<close>

type_synonym combination = "string \<times> string \<times> string"

text \<open>\<^verbatim>\<open>s.strip()\<close> and \<^verbatim>\<open>s.replace(' ', '')\<close>.\<close>

definition strip :: "string \<Rightarrow> string" where
  "strip s = rev (dropWhile is_space (rev (dropWhile is_space s)))"

definition remove_spaces :: "string \<Rightarrow> string" where
  "remove_spaces s = filter (\<lambda>c. c \<noteq> CHR '' '') s"

text \<open>
  The parsing of the page by BeautifulSoup is outside the model: \<open>extract_combinations\<close>
  takes the list \<open>post_bodies\<close> of the texts \<^verbatim>\<open>post.get_text()\<close> of the
  \<^verbatim>\<open>div.post_body\<close> elements of the page, or the text of the whole page as the only
  element when there is none, and the dict \<open>translations\<close> (\<^verbatim>\<open>None\<close> already replaced by
  the empty dict).
  \<^verbatim>\<open>
      for post in post_bodies:
          text = post.get_text()
          matches = re.findall(pattern, text, re.MULTILINE)
          for match in matches:
              part1 = match[0].strip()
              part2 = match[1].strip()
              part3 = match[2].strip()
              if translations:
                  part3 = translate_suffix(part3, translations)
              part1 = part1.replace(' ', '')
              part2 = part2.replace(' ', '')
              part3 = part3.replace(' ', '')
              key = (part1, part2, part3)
              if part1 and part2 and part3:
                  if '\n' not in part1 and '\n' not in part2 and '\n' not in part3:
                      combinations.append(key)
      return combinations
  \<close>
  \<open>add_matches\<close> is the inner loop and \<open>add_posts\<close> the outer one, each on the list
  \<open>combinations\<close> built so far; an exception of \<open>translate_suffix\<close> would end both.
\<close>

fun add_matches ::
  "(string \<times> string \<times> string) list \<Rightarrow> translation_table \<Rightarrow> combination list
   \<Rightarrow> py_error + combination list" where
  "add_matches [] translations combinations = Inr combinations"
| "add_matches ((m0, m1, m2) # matches) translations combinations =
     (case (if translations \<noteq> [] then translate_suffix (strip m2) translations
            else Inr (strip m2)) of
        Inl e \<Rightarrow> Inl e
      | Inr translated \<Rightarrow>
          (let part1 = remove_spaces (strip m0);
               part2 = remove_spaces (strip m1);
               part3 = remove_spaces translated
           in add_matches matches translations
                (if part1 \<noteq> [] \<and> part2 \<noteq> [] \<and> part3 \<noteq> [] \<and>
                    CHR 0x0A \<notin> set part1 \<and> CHR 0x0A \<notin> set part2 \<and> CHR 0x0A \<notin> set part3
                 then combinations @ [(part1, part2, part3)] else combinations)))"

fun add_posts ::
  "string list \<Rightarrow> translation_table \<Rightarrow> combination list \<Rightarrow> py_error + combination list" where
  "add_posts [] translations combinations = Inr combinations"
| "add_posts (text # posts) translations combinations =
     (case add_matches (findall text) translations combinations of
        Inl e \<Rightarrow> Inl e
      | Inr combinations' \<Rightarrow> add_posts posts translations combinations')"

definition extract_combinations ::
  "string list \<Rightarrow> translation_table \<Rightarrow> py_error + combination list" where
  "extract_combinations post_bodies translations = add_posts post_bodies translations []"

text \<open>\<open>finalized translations m c\<close>: the combination \<open>c\<close> is what the loop body makes of
  the match \<open>m\<close> and appends: the groups trimmed, the third one then translated, the
  spaces removed from all three; no part is empty or holds a line break. (With the empty
  dict the loop keeps the trimmed third group, which is also what \<open>translate_suffix\<close>
  returns on it.)\<close>

definition finalized :: "translation_table \<Rightarrow> string \<times> string \<times> string \<Rightarrow> combination \<Rightarrow> bool" where
  "finalized translations m c \<longleftrightarrow>
     (\<exists>v. translate_suffix (strip (snd (snd m))) translations = Inr v \<and>
          c = (remove_spaces (strip (fst m)), remove_spaces (strip (fst (snd m))),
               remove_spaces v)) \<and>
     fst c \<noteq> [] \<and> fst (snd c) \<noteq> [] \<and> snd (snd c) \<noteq> [] \<and>
     CHR 0x0A \<notin> set (fst c) \<and> CHR 0x0A \<notin> set (fst (snd c)) \<and> CHR 0x0A \<notin> set (snd (snd c))"

text \<open>A single contiguous token: not empty, and without whitespace.\<close>

definition single_token :: "string \<Rightarrow> bool" where
  "single_token s \<longleftrightarrow> s \<noteq> [] \<and> \<not> list_ex is_space s"

subsection \<open>Facts about the scan and the trimming\<close>

lemma record_in_shift:
  "record_in s pre g1 b g2 g3 rest \<Longrightarrow> record_in (p @ s) (p @ pre) g1 b g2 g3 rest"
  by (simp add: record_in_def)

lemma findall_record:
  "(g1, g2, g3) \<in> set (findall s) \<Longrightarrow> \<exists>pre b rest. record_in s pre g1 b g2 g3 rest"
proof (induction s rule: findall.induct)
  case 1
  then show ?case by simp
next
  case (2 c cs)
  show ?case
  proof (cases "match_at (c # cs)")
    case None
    with "2.prems" have "(g1, g2, g3) \<in> set (findall cs)" by simp
    from "2.IH"(1) [OF None this] obtain pre b rest where "record_in cs pre g1 b g2 g3 rest"
      by blast
    from record_in_shift [OF this, of "[c]"] show ?thesis by auto
  next
    case (Some m)
    obtain h1 h2 h3 r where m: "m = (h1, h2, h3, r)" by (cases m) auto
    from match_at_record [of "c # cs" h1 h2 h3 r] Some m
    obtain b where rec: "record_in (c # cs) [] h1 b h2 h3 r" by auto
    from "2.prems" Some m
    have "(g1, g2, g3) = (h1, h2, h3) \<or> (g1, g2, g3) \<in> set (findall r)" by simp
    then show ?thesis
    proof
      assume "(g1, g2, g3) = (h1, h2, h3)"
      with rec show ?thesis by blast
    next
      assume "(g1, g2, g3) \<in> set (findall r)"
      from "2.IH"(2) [OF Some m [symmetric] refl refl this]
      obtain pre b' rest where "record_in r pre g1 b' g2 g3 rest" by blast
      from record_in_shift [OF this, of "h1 @ b @ h2 @ h3"] rec
      have "record_in (c # cs) ((h1 @ b @ h2 @ h3) @ pre) g1 b' g2 g3 rest"
        by (simp add: record_in_def)
      then show ?thesis by blast
    qed
  qed
qed

lemma strip_ends:
  "strip s = [] \<or> (\<not> is_space (hd (strip s)) \<and> \<not> is_space (last (strip s)))"
proof (cases "strip s = []")
  case True
  then show ?thesis by simp
next
  case False
  define ys where "ys = dropWhile is_space s"
  define zs where "zs = dropWhile is_space (rev ys)"
  have st: "strip s = rev zs" by (simp add: strip_def ys_def zs_def)
  have z: "zs \<noteq> []" using False st by simp
  have ys: "ys \<noteq> []" using z by (auto simp: zs_def)
  have "\<not> is_space (hd zs)" using z unfolding zs_def by (rule hd_dropWhile)
  then have l: "\<not> is_space (last (strip s))" using z st by (simp add: last_rev)
  have hy: "\<not> is_space (hd ys)" using ys unfolding ys_def by (rule hd_dropWhile)
  have "rev ys = takeWhile is_space (rev ys) @ zs" by (simp add: zs_def)
  then have "last (rev ys) = last zs" using z by (metis last_appendR)
  then have "hd (strip s) = hd ys" using z ys st by (simp add: hd_rev last_rev)
  with hy l show ?thesis by simp
qed

lemma strip_id:
  assumes "s = [] \<or> (\<not> is_space (hd s) \<and> \<not> is_space (last s))"
  shows "strip s = s"
proof (cases "s = []")
  case True
  then show ?thesis by (simp add: strip_def)
next
  case False
  with assms have h: "\<not> is_space (hd s)" and l: "\<not> is_space (last s)" by auto
  have "dropWhile is_space s = s" using False h by (cases s) auto
  moreover have "dropWhile is_space (rev s) = rev s"
    using False l by (cases "rev s") (auto simp: last_rev hd_rev [symmetric])
  ultimately show ?thesis by (simp add: strip_def)
qed

lemma remove_spaces_ends:
  assumes "s \<noteq> []" "\<not> is_space (hd s)" "\<not> is_space (last s)"
  shows "remove_spaces s \<noteq> [] \<and> hd (remove_spaces s) = hd s \<and> last (remove_spaces s) = last s"
proof -
  have sp: "is_space CHR '' ''" by (simp add: is_space_def)
  from assms sp have h: "hd s \<noteq> CHR '' ''" and l: "last s \<noteq> CHR '' ''" by auto
  from assms(1) h have a: "remove_spaces s \<noteq> [] \<and> hd (remove_spaces s) = hd s"
    by (cases s) (auto simp: remove_spaces_def)
  from assms(1) l have "last (remove_spaces s) = last s"
    by (induction s rule: rev_induct) (auto simp: remove_spaces_def)
  with a show ?thesis by simp
qed

lemma strip_remove_spaces_strip: "strip (remove_spaces (strip s)) = remove_spaces (strip s)"
proof (cases "strip s = []")
  case True
  have "strip [] = []" by (simp add: strip_def)
  with True show ?thesis by (simp add: remove_spaces_def)
next
  case False
  with strip_ends [of s] remove_spaces_ends [of "strip s"] show ?thesis
    by (intro strip_id) auto
qed

lemma remove_spaces_no_space: "CHR '' '' \<notin> set (remove_spaces s)"
  by (simp add: remove_spaces_def)

lemma translate_suffix_empty: "translate_suffix s [] = Inr s"
  by (simp add: translate_suffix_def dict_contains_def)

lemma add_matches_sound:
  "\<exists>out. add_matches ms t acc = Inr out \<and>
         (\<forall>c \<in> set out. c \<in> set acc \<or> (\<exists>m \<in> set ms. finalized t m c))"
proof (induction ms arbitrary: acc)
  case Nil
  then show ?case by simp
next
  case (Cons m ms)
  obtain m0 m1 m2 where m: "m = (m0, m1, m2)" by (cases m) auto
  obtain v where v: "translate_suffix (strip m2) t = Inr v"
    using translate_suffix_cases by blast
  then have tr: "(if t \<noteq> [] then translate_suffix (strip m2) t else Inr (strip m2)) = Inr v"
    using translate_suffix_empty [of "strip m2"] by (cases "t = []") auto
  define c where "c = (remove_spaces (strip m0), remove_spaces (strip m1), remove_spaces v)"
  define ok where "ok \<longleftrightarrow> fst c \<noteq> [] \<and> fst (snd c) \<noteq> [] \<and> snd (snd c) \<noteq> [] \<and>
     CHR 0x0A \<notin> set (fst c) \<and> CHR 0x0A \<notin> set (fst (snd c)) \<and> CHR 0x0A \<notin> set (snd (snd c))"
  have step: "add_matches (m # ms) t acc = add_matches ms t (if ok then acc @ [c] else acc)"
    by (simp add: m tr c_def ok_def Let_def)
  from Cons.IH [of "if ok then acc @ [c] else acc"] obtain out where
    out: "add_matches ms t (if ok then acc @ [c] else acc) = Inr out"
    and all: "\<forall>d \<in> set out. d \<in> set (if ok then acc @ [c] else acc) \<or> (\<exists>m \<in> set ms. finalized t m d)"
    by blast
  have fin: "ok \<Longrightarrow> finalized t m c"
    using v by (auto simp: finalized_def ok_def c_def m)
  have "\<forall>d \<in> set out. d \<in> set acc \<or> (\<exists>m' \<in> set (m # ms). finalized t m' d)"
  proof
    fix d assume "d \<in> set out"
    with all have "d \<in> set (if ok then acc @ [c] else acc) \<or> (\<exists>m \<in> set ms. finalized t m d)"
      by blast
    then show "d \<in> set acc \<or> (\<exists>m' \<in> set (m # ms). finalized t m' d)"
      using fin by (auto split: if_splits)
  qed
  with step out show ?case by simp
qed

lemma add_posts_sound:
  "\<exists>out. add_posts posts t acc = Inr out \<and>
         (\<forall>c \<in> set out. c \<in> set acc \<or>
            (\<exists>text \<in> set posts. \<exists>m \<in> set (findall text). finalized t m c))"
proof (induction posts arbitrary: acc)
  case Nil
  then show ?case by simp
next
  case (Cons body posts)
  from add_matches_sound [of "findall body" t acc] obtain mid where
    mid: "add_matches (findall body) t acc = Inr mid"
    and m1: "\<forall>c \<in> set mid. c \<in> set acc \<or> (\<exists>m \<in> set (findall body). finalized t m c)"
    by blast
  from Cons.IH [of mid] obtain out where
    out: "add_posts posts t mid = Inr out"
    and m2: "\<forall>c \<in> set out. c \<in> set mid \<or>
            (\<exists>text \<in> set posts. \<exists>m \<in> set (findall text). finalized t m c)"
    by blast
  have "\<forall>c \<in> set out. c \<in> set acc \<or>
            (\<exists>text' \<in> set (body # posts). \<exists>m \<in> set (findall text'). finalized t m c)"
    using m1 m2 by fastforce
  with mid out show ?case by simp
qed

lemma extract_combinations_sound:
  "\<exists>out. extract_combinations posts t = Inr out \<and>
         (\<forall>c \<in> set out. \<exists>text \<in> set posts. \<exists>m \<in> set (findall text). finalized t m c)"
  using add_posts_sound [of posts t "[]"] by (simp add: extract_combinations_def)

lemma set_strip: "set (strip s) \<subseteq> set s"
proof -
  have "set (strip s) = set (dropWhile is_space (rev (dropWhile is_space s)))"
    by (simp add: strip_def)
  also have "\<dots> \<subseteq> set (rev (dropWhile is_space s))" by (rule set_dropWhileD [THEN subsetI])
  also have "\<dots> \<subseteq> set s" using set_dropWhileD [of _ is_space s] by auto
  finally show ?thesis .
qed

lemma set_remove_spaces_strip: "set (remove_spaces (strip s)) \<subseteq> set s - {CHR '' ''}"
  using set_strip [of s] by (auto simp: remove_spaces_def)

lemma digit_not_space: "is_digit c \<or> c = CHR ''-'' \<Longrightarrow> \<not> is_space c"
  by (auto simp: is_digit_def is_space_def)

text \<open>
  Claim C6, amended. \<open>extract_combinations\<close> returns normally, and every combination it
  produces comes from a match of the pattern in one of the post texts: part 1 and part 2
  are the first two groups, trimmed and with their spaces removed, and part 3 is the
  translation of the trimmed third group with its spaces removed afterwards. Parts 1 and
  2 have no whitespace at either end and no part holds the space character; part 1
  consists of letters and of the tabs that separated its words (the tabs are kept), part
  2 is a single token. No part is empty and no part holds a line break: a record with
  such a part is dropped.
\<close>

theorem extract_combinations_parts:
  "\<exists>out. extract_combinations post_bodies translations = Inr out \<and>
     (\<forall>(part1, part2, part3) \<in> set out.
        (\<exists>body \<in> set post_bodies. \<exists>(m0, m1, m2) \<in> set (findall body). \<exists>v.
            translate_suffix (strip m2) translations = Inr v \<and>
            part1 = remove_spaces (strip m0) \<and> part2 = remove_spaces (strip m1) \<and>
            part3 = remove_spaces v) \<and>
        strip part1 = part1 \<and> strip part2 = part2 \<and>
        CHR '' '' \<notin> set part1 \<and> CHR '' '' \<notin> set part2 \<and> CHR '' '' \<notin> set part3 \<and>
        list_all (\<lambda>c. is_alpha c \<or> c = CHR 0x09) part1 \<and> single_token part2 \<and>
        part1 \<noteq> [] \<and> part2 \<noteq> [] \<and> part3 \<noteq> [] \<and>
        CHR 0x0A \<notin> set part1 \<and> CHR 0x0A \<notin> set part2 \<and> CHR 0x0A \<notin> set part3)"
proof -
  from extract_combinations_sound [of post_bodies "translations"] obtain out where
    out: "extract_combinations post_bodies translations = Inr out"
    and fin: "\<forall>c \<in> set out. \<exists>body \<in> set post_bodies. \<exists>m \<in> set (findall body).
                finalized translations m c"
    by blast
  have "(\<exists>body \<in> set post_bodies. \<exists>(m0, m1, m2) \<in> set (findall body). \<exists>v.
            translate_suffix (strip m2) translations = Inr v \<and>
            part1 = remove_spaces (strip m0) \<and> part2 = remove_spaces (strip m1) \<and>
            part3 = remove_spaces v) \<and>
        strip part1 = part1 \<and> strip part2 = part2 \<and>
        CHR '' '' \<notin> set part1 \<and> CHR '' '' \<notin> set part2 \<and> CHR '' '' \<notin> set part3 \<and>
        list_all (\<lambda>c. is_alpha c \<or> c = CHR 0x09) part1 \<and> single_token part2 \<and>
        part1 \<noteq> [] \<and> part2 \<noteq> [] \<and> part3 \<noteq> [] \<and>
        CHR 0x0A \<notin> set part1 \<and> CHR 0x0A \<notin> set part2 \<and> CHR 0x0A \<notin> set part3"
    if mem: "(part1, part2, part3) \<in> set out" for part1 part2 part3
  proof -
    from fin mem obtain body m where body: "body \<in> set post_bodies"
      and m: "m \<in> set (findall body)" and f: "finalized translations m (part1, part2, part3)"
      by blast
    obtain m0 m1 m2 where m012: "m = (m0, m1, m2)" by (cases m) auto
    from f m012 obtain v where v: "translate_suffix (strip m2) translations = Inr v"
      and p1: "part1 = remove_spaces (strip m0)" and p2: "part2 = remove_spaces (strip m1)"
      and p3: "part3 = remove_spaces v"
      and ne: "part1 \<noteq> []" "part2 \<noteq> []" "part3 \<noteq> []"
      and nl: "CHR 0x0A \<notin> set part1" "CHR 0x0A \<notin> set part2" "CHR 0x0A \<notin> set part3"
      by (auto simp: finalized_def)
    from findall_record [of m0 m1 m2 body] m m012 obtain pre b rest where
      "record_in body pre m0 b m1 m2 rest" by blast
    then have c0: "\<forall>c \<in> set m0. is_alpha c \<or> is_blank c"
      and c1: "\<forall>c \<in> set m1. is_digit c \<or> c = CHR ''-''"
      by (simp_all add: record_in_chars)
    have a: "\<exists>body \<in> set post_bodies. \<exists>(m0, m1, m2) \<in> set (findall body). \<exists>v.
            translate_suffix (strip m2) translations = Inr v \<and>
            part1 = remove_spaces (strip m0) \<and> part2 = remove_spaces (strip m1) \<and>
            part3 = remove_spaces v"
      using body m m012 v p1 p2 p3 by blast
    have t: "strip part1 = part1" "strip part2 = part2"
      by (simp_all add: p1 p2 strip_remove_spaces_strip)
    have sp: "CHR '' '' \<notin> set part1" "CHR '' '' \<notin> set part2" "CHR '' '' \<notin> set part3"
      by (simp_all add: p1 p2 p3 remove_spaces_no_space)
    have l1: "list_all (\<lambda>c. is_alpha c \<or> c = CHR 0x09) part1"
      using c0 set_remove_spaces_strip [of m0] by (auto simp: p1 list_all_iff is_blank_def)
    have "\<forall>c \<in> set part2. \<not> is_space c"
      using c1 set_remove_spaces_strip [of m1] digit_not_space by (auto simp: p2)
    then have l2: "single_token part2" using ne(2) by (simp add: single_token_def list_ex_iff)
    from a t sp l1 l2 ne nl show ?thesis by simp
  qed
  with out show ?thesis by blast
qed

theorem extract_combinations_parts_witness:
  "extract_combinations [''Wizard Rod 1-60H, x''] [(''h'', ''Hexa Bit'')]
     = Inr [(''WizardRod'', ''1-60'', ''HexaBit'')] \<and>
   strip ''WizardRod'' = ''WizardRod'' \<and> strip ''1-60'' = ''1-60'' \<and>
   CHR '' '' \<notin> set ''HexaBit'' \<and> single_token ''1-60''"
proof -
  have e: "extract_combinations [''Wizard Rod 1-60H, x''] [(''h'', ''Hexa Bit'')]
     = Inr [(''WizardRod'', ''1-60'', ''HexaBit'')]"
    by code_simp
  from extract_combinations_parts [of "[''Wizard Rod 1-60H, x'']" "[(''h'', ''Hexa Bit'')]"] e
  show ?thesis by simp
qed

text \<open>
  Claim C6, as the spec states it, says that the parts are single contiguous tokens. The
  post text \<open>Phoenix<TAB>Wing 1-60R\<close> refutes it: the pattern accepts a tab between the
  words of a name, and \<^verbatim>\<open>replace(' ', '')\<close> removes the space character only, so the
  first part keeps its tab. The third part is trimmed before it is translated, not after:
  with the table \<open>{"R": "<TAB>Rush"}\<close> the third part of \<open>PhoenixWing 1-60R\<close> is the
  entry as it stands, tab included.
\<close>

theorem extract_keeps_tab:
  "extract_combinations [''Phoenix'' @ [CHR 0x09] @ ''Wing 1-60R''] []
     = Inr [(''Phoenix'' @ [CHR 0x09] @ ''Wing'', ''1-60'', ''R'')] \<and>
   \<not> single_token (''Phoenix'' @ [CHR 0x09] @ ''Wing'') \<and>
   extract_combinations [''PhoenixWing 1-60R''] [(''R'', [CHR 0x09] @ ''Rush'')]
     = Inr [(''PhoenixWing'', ''1-60'', [CHR 0x09] @ ''Rush'')] \<and>
   strip ([CHR 0x09] @ ''Rush'') \<noteq> [CHR 0x09] @ ''Rush''"
  by code_simp

lemma group_chars_no_newline:
  "is_alpha c \<or> is_blank c \<or> is_digit c \<or> c = CHR ''-'' \<Longrightarrow> c \<noteq> CHR 0x0A"
  by (auto simp: is_alpha_def is_blank_def is_digit_def)






text \<open>
  Claim C7. The text \<open>PhoenixWing 1-60R\<close>, line break, \<open>WizardRod 1-60Hexa\<close> gives exactly
  the two triples of its two lines, and in every text no group of a match holds a line
  break: a match never crosses a line boundary.
\<close>

theorem extract_two_lines:
  "findall (''PhoenixWing 1-60R'' @ [CHR 0x0A] @ ''WizardRod 1-60Hexa'')
     = [(''PhoenixWing'', ''1-60'', ''R''), (''WizardRod'', ''1-60'', ''Hexa'')] \<and>
   extract_combinations [''PhoenixWing 1-60R'' @ [CHR 0x0A] @ ''WizardRod 1-60Hexa''] []
     = Inr [(''PhoenixWing'', ''1-60'', ''R''), (''WizardRod'', ''1-60'', ''Hexa'')] \<and>
   (\<forall>(g1, g2, g3) \<in> set (findall body).
      CHR 0x0A \<notin> set g1 \<and> CHR 0x0A \<notin> set g2 \<and> CHR 0x0A \<notin> set g3)"
proof (intro conjI)
  show "findall (''PhoenixWing 1-60R'' @ [CHR 0x0A] @ ''WizardRod 1-60Hexa'')
     = [(''PhoenixWing'', ''1-60'', ''R''), (''WizardRod'', ''1-60'', ''Hexa'')]"
    by code_simp
  show "extract_combinations [''PhoenixWing 1-60R'' @ [CHR 0x0A] @ ''WizardRod 1-60Hexa''] []
     = Inr [(''PhoenixWing'', ''1-60'', ''R''), (''WizardRod'', ''1-60'', ''Hexa'')]"
    by code_simp
  show "\<forall>(g1, g2, g3) \<in> set (findall body).
      CHR 0x0A \<notin> set g1 \<and> CHR 0x0A \<notin> set g2 \<and> CHR 0x0A \<notin> set g3"
  proof (clarify, intro conjI)
    fix g1 g2 g3
    assume "(g1, g2, g3) \<in> set (findall body)"
    then obtain pre b rest where "record_in body pre g1 b g2 g3 rest"
      using findall_record by blast
    then have c: "\<forall>c \<in> set g1. is_alpha c \<or> is_blank c"
      "\<forall>c \<in> set g2. is_digit c \<or> c = CHR ''-''"
      "\<forall>c \<in> set g3. is_alpha c \<or> is_blank c"
      by (simp_all add: record_in_chars)
    show "CHR 0x0A \<notin> set g1" using c(1) group_chars_no_newline by blast
    show "CHR 0x0A \<notin> set g2" using c(2) group_chars_no_newline by blast
    show "CHR 0x0A \<notin> set g3" using c(3) group_chars_no_newline by blast
  qed
qed

theorem extract_two_lines_witness:
  "CHR 0x0A \<notin> set ''PhoenixWing'' \<and> CHR 0x0A \<notin> set ''1-60'' \<and> CHR 0x0A \<notin> set ''R'' \<and>
   CHR 0x0A \<notin> set ''WizardRod'' \<and> CHR 0x0A \<notin> set ''Hexa''"
  using extract_two_lines [of "''PhoenixWing 1-60R'' @ [CHR 0x0A] @ ''WizardRod 1-60Hexa''"]
  by simp

section \<open>The forum and its pages\<close>

text \<open>
  The network and the libraries are parameters of the model, gathered in the record
  \<open>site\<close>: \<open>http_get\<close> is \<^verbatim>\<open>session.get\<close> followed by \<^verbatim>\<open>raise_for_status\<close> and
  \<^verbatim>\<open>.text\<close> (\<open>None\<close> when a \<^verbatim>\<open>RequestException\<close> is raised); \<open>post_date_texts\<close>,
  \<open>post_body_texts\<close> and \<open>current_page_number\<close> are what BeautifulSoup reads off a page
  (the texts of the \<^verbatim>\<open>span.post_date\<close> elements; the texts of the \<^verbatim>\<open>div.post_body\<close>
  elements, or the text of the page when there is none; the number in the
  \<^verbatim>\<open>li.active.multipage-current\<close> link, \<open>None\<close> when it is missing or not a number);
  \<open>strptime\<close> is \<^verbatim>\<open>datetime.strptime\<close> (\<open>None\<close> for \<^verbatim>\<open>ValueError\<close>).

  A \<^verbatim>\<open>datetime\<close> (naive, compared as a point in time) is the number of microseconds
  from \<^verbatim>\<open>datetime.min\<close>, the start of the year 1, to it; \<^verbatim>\<open>datetime.max\<close>, the last
  microsecond of the year 9999, is 315537897599999999. A page is
  asked for by its number or as \<^verbatim>\<open>"last"\<close>. The effect of \<open>fetch_page\<close> is the request
  it sends: each function that fetches takes the list of the pages requested so far and
  returns it extended. Printing and the pause before a request are left out.
\<close>

type_synonym datetime = int

datatype page_ref = Last | Page int

record site =
  http_get :: "page_ref \<Rightarrow> string option"
  post_date_texts :: "string \<Rightarrow> string list"
  post_body_texts :: "string \<Rightarrow> string list"
  current_page_number :: "string \<Rightarrow> int option"
  strptime :: "string \<Rightarrow> string \<Rightarrow> datetime option"

text \<open>
  \<^verbatim>\<open>
      try:
          time.sleep(2)
          response = session.get(url, headers=headers, timeout=30)
          response.raise_for_status()
          return response.text
      except requests.RequestException as e:
          return ""
  \<close>
\<close>

definition fetch_page :: "site \<Rightarrow> page_ref \<Rightarrow> page_ref list \<Rightarrow> string \<times> page_ref list" where
  "fetch_page s page_number requested =
     (case http_get s page_number of Some body \<Rightarrow> body | None \<Rightarrow> [],
      requested @ [page_number])"

text \<open>\<open>get_last_page_number\<close>: the page \<^verbatim>\<open>"last"\<close> and the number it shows as current.\<close>

definition get_last_page_number :: "site \<Rightarrow> page_ref list \<Rightarrow> int option \<times> page_ref list" where
  "get_last_page_number s requested =
     (let (html, requested) = fetch_page s Last requested
      in if html = [] then (None, requested) else (current_page_number s html, requested))"

text \<open>\<open>parse_forum_date\<close>: non-breaking spaces become spaces, the string is trimmed, and
  the two formats are tried in order.\<close>

definition parse_forum_date :: "site \<Rightarrow> string \<Rightarrow> datetime option" where
  "parse_forum_date s date_str =
     (let date_str = strip (map (\<lambda>c. if c = CHR 0xA0 then CHR '' '' else c) date_str)
      in case strptime s date_str ''%b. %d, %Y %I:%M %p'' of
           Some d \<Rightarrow> Some d
         | None \<Rightarrow> strptime s date_str ''%b %d, %Y %I:%M %p'')"

definition extract_dates_from_page :: "site \<Rightarrow> string \<Rightarrow> datetime list" where
  "extract_dates_from_page s html_content =
     List.map_filter (\<lambda>date_text. parse_forum_date s (strip date_text))
       (post_date_texts s html_content)"

section \<open>The search for the page of a date\<close>

text \<open>
  \<^verbatim>\<open>
      for page_num in range(start_page, start_page - max_pages_to_check, -1):
          html = fetch_page(page_num)
          if not html:
              continue
          dates = extract_dates_from_page(html)
          if not dates:
              continue
          dates.sort()
          earliest = dates[0]
          latest = dates[-1]
          if earliest <= target_date <= latest:
              return page_num
      return None
  \<close>
  \<open>probe_pages\<close> is the loop over the pages still to visit; \<open>range_down a b\<close> is
  \<^verbatim>\<open>range(a, b, -1)\<close>, the numbers from \<open>a\<close> down to \<open>b + 1\<close>.
\<close>

definition range_down :: "int \<Rightarrow> int \<Rightarrow> int list" where
  "range_down a b = rev [b + 1..a]"

fun probe_pages ::
  "site \<Rightarrow> datetime \<Rightarrow> int list \<Rightarrow> page_ref list \<Rightarrow> int option \<times> page_ref list" where
  "probe_pages s target_date [] requested = (None, requested)"
| "probe_pages s target_date (page_num # pages) requested =
     (let (html, requested) = fetch_page s (Page page_num) requested
      in if html = [] then probe_pages s target_date pages requested
         else let dates = extract_dates_from_page s html
              in if dates = [] then probe_pages s target_date pages requested
                 else let dates = sort dates; earliest = hd dates; latest = last dates
                      in if earliest \<le> target_date \<and> target_date \<le> latest
                         then (Some page_num, requested)
                         else probe_pages s target_date pages requested)"

definition find_page_for_date ::
  "site \<Rightarrow> datetime \<Rightarrow> int \<Rightarrow> int \<Rightarrow> page_ref list \<Rightarrow> int option \<times> page_ref list" where
  "find_page_for_date s target_date start_page max_pages_to_check requested =
     probe_pages s target_date (range_down start_page (start_page - max_pages_to_check))
       requested"

section \<open>Scraping a range of pages\<close>

text \<open>
  \<^verbatim>\<open>
      actual_end_page = end_page
      if end_page == "last":
          actual_end_page = get_last_page_number()
          if actual_end_page is None:
              return []
      all_combinations = []
      for page_num in range(start_page, actual_end_page + 1):
          html = fetch_page(page_num)
          if html:
              combinations = extract_combinations(html, translations)
              all_combinations.extend(combinations)
      return all_combinations
  \<close>
\<close>

fun scrape_pages ::
  "site \<Rightarrow> translation_table \<Rightarrow> int list \<Rightarrow> combination list \<Rightarrow> page_ref list
   \<Rightarrow> (py_error + combination list) \<times> page_ref list" where
  "scrape_pages s translations [] all_combinations requested = (Inr all_combinations, requested)"
| "scrape_pages s translations (page_num # pages) all_combinations requested =
     (let (html, requested) = fetch_page s (Page page_num) requested
      in if html \<noteq> []
         then (case extract_combinations (post_body_texts s html) translations of
                 Inl e \<Rightarrow> (Inl e, requested)
               | Inr combinations \<Rightarrow>
                   scrape_pages s translations pages (all_combinations @ combinations) requested)
         else scrape_pages s translations pages all_combinations requested)"

definition scrape_multiple_pages ::
  "site \<Rightarrow> int \<Rightarrow> page_ref \<Rightarrow> translation_table \<Rightarrow> page_ref list
   \<Rightarrow> (py_error + combination list) \<times> page_ref list" where
  "scrape_multiple_pages s start_page end_page translations requested =
     (case end_page of
        Page actual_end_page \<Rightarrow>
          scrape_pages s translations [start_page..actual_end_page] [] requested
      | Last \<Rightarrow>
          (let (actual_end_page, requested) = get_last_page_number s requested
           in case actual_end_page of
                None \<Rightarrow> (Inr [], requested)
              | Some actual_end_page \<Rightarrow>
                  scrape_pages s translations [start_page..actual_end_page] [] requested))"

section \<open>Scraping a time window\<close>

text \<open>
  \<^verbatim>\<open>
      if hardcoded_start_page is not None:
          start_page = hardcoded_start_page
      else:
          target_date = datetime.now() - timedelta(days=days)
          search_from = search_start_page if search_start_page is not None else last_page_num
          start_page = find_page_for_date(target_date, start_page=search_from, max_pages_to_check=200)
          if start_page is None:
              return None
      combinations = scrape_multiple_pages(start_page, last_page_num, translations)
      if combinations:
          ...
          return start_page
      else:
          return None
  \<close>
  \<open>now\<close> is the value of \<^verbatim>\<open>datetime.now()\<close> at the call. The files written when
  combinations were found (the CSV files and the charts) are not part of the model; the
  value returned is.

  \<^verbatim>\<open>timedelta(days=days)\<close> raises \<^verbatim>\<open>OverflowError\<close> for more than 999999999 days in
  either direction, and so does the subtraction when its result is not a \<^verbatim>\<open>datetime\<close>;
  \<open>minus_days now days\<close> is \<^verbatim>\<open>now - timedelta(days=days)\<close>.
\<close>

definition timedelta_days :: "int \<Rightarrow> int" where
  "timedelta_days days = days * 86400000000"

definition minus_days :: "datetime \<Rightarrow> int \<Rightarrow> py_error + datetime" where
  "minus_days now days =
     (if days < - 999999999 \<or> 999999999 < days then Inl OverflowError
      else let d = now - timedelta_days days
           in if 0 \<le> d \<and> d \<le> 315537897599999999 then Inr d else Inl OverflowError)"

definition scrape_from ::
  "site \<Rightarrow> translation_table \<Rightarrow> int \<Rightarrow> int \<Rightarrow> page_ref list
   \<Rightarrow> (py_error + int option) \<times> page_ref list" where
  "scrape_from s translations last_page_num start_page requested =
     (let (combinations, requested) =
            scrape_multiple_pages s start_page (Page last_page_num) translations requested
      in case combinations of
           Inl e \<Rightarrow> (Inl e, requested)
         | Inr combinations \<Rightarrow>
             if combinations \<noteq> [] then (Inr (Some start_page), requested)
             else (Inr None, requested))"

definition scrape_time_period ::
  "site \<Rightarrow> datetime \<Rightarrow> int \<Rightarrow> translation_table \<Rightarrow> int \<Rightarrow> int option \<Rightarrow> int option
   \<Rightarrow> page_ref list \<Rightarrow> (py_error + int option) \<times> page_ref list" where
  "scrape_time_period s now days translations last_page_num hardcoded_start_page
     search_start_page requested =
     (case hardcoded_start_page of
        Some start_page \<Rightarrow> scrape_from s translations last_page_num start_page requested
      | None \<Rightarrow>
          (case minus_days now days of
             Inl e \<Rightarrow> (Inl e, requested)
           | Inr target_date \<Rightarrow>
               (let search_from = (case search_start_page of
                                     Some p \<Rightarrow> p | None \<Rightarrow> last_page_num);
                    (start_page, requested) =
                       find_page_for_date s target_date search_from 200 requested
                in case start_page of
                     None \<Rightarrow> (Inr None, requested)
                   | Some start_page \<Rightarrow>
                       scrape_from s translations last_page_num start_page requested)))"

section \<open>Properties of the search and of the scrape\<close>

text \<open>What a page holds, as the loops see it: the text \<open>fetch_page\<close> returns for it
  (empty after a failed request), the timestamps read off that text (none when the text
  is empty), and whether the range of these timestamps, from the earliest to the latest,
  contains a date. A page without timestamps has no range and brackets no date.\<close>

definition page_html :: "site \<Rightarrow> int \<Rightarrow> string" where
  "page_html s p = fst (fetch_page s (Page p) [])"

definition page_dates :: "site \<Rightarrow> int \<Rightarrow> datetime list" where
  "page_dates s p =
     (if page_html s p = [] then [] else extract_dates_from_page s (page_html s p))"

definition brackets :: "site \<Rightarrow> datetime \<Rightarrow> int \<Rightarrow> bool" where
  "brackets s target_date p \<longleftrightarrow>
     page_dates s p \<noteq> [] \<and>
     Min (set (page_dates s p)) \<le> target_date \<and> target_date \<le> Max (set (page_dates s p))"

text \<open>A page is fetched when \<open>fetch_page\<close> returns content for it: the function reports
  a failed request as the empty text. \<open>page_combinations\<close> is the extraction on the
  content of a page, \<open>window_combinations\<close> the concatenation of the extractions on the
  fetched pages from \<open>p\<close> to \<open>l\<close>.\<close>

definition fetched :: "site \<Rightarrow> int \<Rightarrow> bool" where
  "fetched s p \<longleftrightarrow> page_html s p \<noteq> []"

definition page_combinations :: "site \<Rightarrow> translation_table \<Rightarrow> int \<Rightarrow> combination list" where
  "page_combinations s translations p =
     (case extract_combinations (post_body_texts s (page_html s p)) translations of
        Inr combinations \<Rightarrow> combinations
      | Inl e \<Rightarrow> [])"

definition window_combinations :: "site \<Rightarrow> translation_table \<Rightarrow> int \<Rightarrow> int \<Rightarrow> combination list" where
  "window_combinations s t p l = concat (map (page_combinations s t) (filter (fetched s) [p..l]))"

text \<open>Page dates are monotonic in the page number: no timestamp of a page is later than
  a timestamp of a page with a higher number.\<close>

definition monotonic_pages :: "site \<Rightarrow> bool" where
  "monotonic_pages s \<longleftrightarrow>
     (\<forall>p q. p < q \<longrightarrow> (\<forall>d \<in> set (page_dates s p). \<forall>d' \<in> set (page_dates s q). d \<le> d'))"

text \<open>A forum for the examples below: it has the pages 1 to \<open>last_page\<close>; page \<open>n\<close> is
  the letter \<open>p\<close> written \<open>n\<close> times and holds one post, dated \<open>n * pace\<close> microseconds
  after the origin of time and with one record in its body.\<close>

definition paced_site :: "int \<Rightarrow> int \<Rightarrow> site" where
  "paced_site last_page pace =
     \<lparr> http_get = (\<lambda>r. case r of
                        Last \<Rightarrow> None
                      | Page n \<Rightarrow> if 1 \<le> n \<and> n \<le> last_page
                                  then Some (replicate (nat n) CHR ''p'') else None),
       post_date_texts = (\<lambda>html. [html]),
       post_body_texts = (\<lambda>html. [''WizardRod 1-60Hexa'']),
       current_page_number = (\<lambda>html. None),
       strptime = (\<lambda>text fmt. Some (int (length text) * pace)) \<rparr>"

lemma fetch_page_eq: "fetch_page s (Page p) requested = (page_html s p, requested @ [Page p])"
  by (simp add: fetch_page_def page_html_def)

lemma hd_sort_Min: "xs \<noteq> [] \<Longrightarrow> hd (sort xs) = Min (set xs)"
proof -
  assume ne: "xs \<noteq> []"
  then have n: "sort xs \<noteq> []" by (metis length_0_conv length_sort)
  then obtain y ys where ys: "sort xs = y # ys" by (cases "sort xs") auto
  have "sorted (y # ys)" using sorted_sort [of xs] ys by simp
  then have "\<forall>z \<in> set (y # ys). y \<le> z" by auto
  moreover have "set (y # ys) = set xs" using ys set_sort [of "\<lambda>x. x" xs] by simp
  ultimately have "Min (set xs) = y" by (intro Min_eqI) auto
  with ys show ?thesis by simp
qed

lemma last_sort_Max: "xs \<noteq> [] \<Longrightarrow> last (sort xs) = Max (set xs)"
proof -
  assume ne: "xs \<noteq> []"
  then have n: "sort xs \<noteq> []" by (metis length_0_conv length_sort)
  then obtain ys y where ys: "sort xs = ys @ [y]" by (cases "sort xs" rule: rev_cases) auto
  have "sorted (ys @ [y])" using sorted_sort [of xs] ys by simp
  then have "\<forall>z \<in> set (ys @ [y]). z \<le> y" by (auto simp: sorted_append)
  moreover have "set (ys @ [y]) = set xs" using ys set_sort [of "\<lambda>x. x" xs] by simp
  ultimately have "Max (set xs) = y" by (intro Max_eqI) auto
  with ys show ?thesis by simp
qed

lemma probe_pages_step:
  "probe_pages s t (p # pages) requested =
     (if brackets s t p then (Some p, requested @ [Page p])
      else probe_pages s t pages (requested @ [Page p]))"
proof (cases "page_dates s p = []")
  case True
  then have "\<not> brackets s t p" by (simp add: brackets_def)
  with True show ?thesis
    by (auto simp: fetch_page_eq page_dates_def Let_def split: if_splits)
next
  case False
  then have h: "page_html s p \<noteq> []" and d: "extract_dates_from_page s (page_html s p) \<noteq> []"
    and pd: "page_dates s p = extract_dates_from_page s (page_html s p)"
    by (auto simp: page_dates_def split: if_splits)
  show ?thesis
    using h d hd_sort_Min [OF d] last_sort_Max [OF d]
    by (simp add: fetch_page_eq Let_def brackets_def pd)
qed

lemma probe_pages_eq:
  "probe_pages s t pages requested =
     (case find (brackets s t) pages of
        None \<Rightarrow> (None, requested @ map Page pages)
      | Some p \<Rightarrow>
          (Some p, requested @ map Page (takeWhile (\<lambda>q. \<not> brackets s t q) pages) @ [Page p]))"
proof (induction pages arbitrary: requested)
  case Nil
  then show ?case by simp
next
  case (Cons p pages)
  show ?case
  proof (cases "brackets s t p")
    case True
    then show ?thesis by (simp add: probe_pages_step del: probe_pages.simps)
  next
    case False
    then show ?thesis
      by (simp add: probe_pages_step Cons.IH del: probe_pages.simps split: option.splits)
  qed
qed

lemma range_down_eq: "range_down a (a - m) = map (\<lambda>i. a - int i) [0..<nat m]"
proof -
  have "rev [a - int n + 1..a] = map (\<lambda>i. a - int i) [0..<n]" for n
  proof (induction n)
    case 0
    then show ?case by simp
  next
    case (Suc n)
    have "[a - int (Suc n) + 1..a] = (a - int n) # [a - int n + 1..a]"
      by (subst upto_rec1) (auto simp: algebra_simps)
    with Suc show ?case by simp
  qed
  from this [of "nat m"] show ?thesis
    by (cases "0 \<le> m") (auto simp: range_down_def)
qed

text \<open>
  Claim C2. \<open>find_page_for_date\<close> requests the pages \<open>start_page\<close>, \<open>start_page - 1\<close>, ...,
  \<open>start_page - max_pages_to_check + 1\<close> in this order. It returns the first of them
  whose timestamps bracket the target date (earliest \<open>\<le>\<close> target \<open>\<le>\<close> latest), having
  requested no page after it; a page without content or without a parsable timestamp
  brackets nothing and the search goes on after it; when no page of the list brackets the
  date, all of them have been requested and the result is \<open>None\<close>.
\<close>

theorem find_page_for_date_first_bracket:
  "find_page_for_date s target_date start_page max_pages_to_check requested =
     (let probes = map (\<lambda>i. start_page - int i) [0..<nat max_pages_to_check]
      in case find (brackets s target_date) probes of
           None \<Rightarrow> (None, requested @ map Page probes)
         | Some p \<Rightarrow>
             (Some p,
              requested @ map Page (takeWhile (\<lambda>q. \<not> brackets s target_date q) probes)
                @ [Page p]))"
  by (simp add: find_page_for_date_def probe_pages_eq range_down_eq Let_def)

lemma extract_combinations_page:
  "extract_combinations (post_body_texts s (page_html s p)) t = Inr (page_combinations s t p)"
  using extract_combinations_sound [of "post_body_texts s (page_html s p)" t]
  by (auto simp: page_combinations_def)

lemma scrape_pages_eq:
  "scrape_pages s t pages acc requested =
     (Inr (acc @ concat (map (page_combinations s t) (filter (fetched s) pages))),
      requested @ map Page pages)"
proof (induction pages arbitrary: acc requested)
  case Nil
  then show ?case by simp
next
  case (Cons p pages)
  show ?case
    by (simp add: fetch_page_eq extract_combinations_page Cons.IH fetched_def)
qed

text \<open>
  Claim C9. Scraping the pages \<open>start_page\<close> to \<open>end_page\<close> never fails and requests every
  page of the range, in ascending order, whatever the outcome of the earlier requests. The
  result is the concatenation, in page order, of the extractions on the pages that were
  fetched: a page whose request failed contributes nothing.
\<close>

theorem scrape_multiple_pages_skips_failures:
  "scrape_multiple_pages s start_page (Page end_page) translations requested =
     (Inr (concat (map (page_combinations s translations)
                     (filter (fetched s) [start_page..end_page]))),
      requested @ map Page [start_page..end_page])"
  by (simp add: scrape_multiple_pages_def scrape_pages_eq)

lemma scrape_from_eq:
  "fst (scrape_from s t l p requested) =
     Inr (if window_combinations s t p l \<noteq> [] then Some p else None)"
proof -
  have "scrape_multiple_pages s p (Page l) t requested =
      (Inr (window_combinations s t p l), requested @ map Page [p..l])"
    by (simp add: scrape_multiple_pages_def scrape_pages_eq window_combinations_def)
  then show ?thesis by (simp add: scrape_from_def)
qed

lemma minus_days_cases:
  "minus_days now days = Inl OverflowError \<or> minus_days now days = Inr (now - timedelta_days days)"
  by (simp add: minus_days_def Let_def)

lemma scrape_time_period_overflow:
  "minus_days now days = Inl e \<Longrightarrow>
   fst (scrape_time_period s now days t l None hint requested) = Inl e"
  by (simp add: scrape_time_period_def)

lemma scrape_time_period_eq:
  "minus_days now days = Inr target_date \<Longrightarrow>
   fst (scrape_time_period s now days t l None hint requested) =
     Inr (case find (brackets s target_date)
                 (range_down (case hint of Some h \<Rightarrow> h | None \<Rightarrow> l)
                    ((case hint of Some h \<Rightarrow> h | None \<Rightarrow> l) - 200)) of
            None \<Rightarrow> None
          | Some p \<Rightarrow> if window_combinations s t p l \<noteq> [] then Some p else None)"
  by (simp add: scrape_time_period_def find_page_for_date_def probe_pages_eq Let_def
      scrape_from_eq split: option.splits)

lemma scrape_time_period_target:
  "fst (scrape_time_period s now days t l None hint requested) = Inr r \<Longrightarrow>
   minus_days now days = Inr (now - timedelta_days days)"
  using minus_days_cases [of now days] scrape_time_period_overflow [of now days OverflowError]
  by fastforce

lemma range_down_rec:
  "range_down a b = (if b < a then a # range_down (a - 1) b else [])"
proof (cases "b < a")
  case True
  then have "[b + 1..a] = [b + 1..a - 1] @ [a]" by (intro upto_rec2) simp
  with True show ?thesis by (simp add: range_down_def)
next
  case False
  then show ?thesis by (simp add: range_down_def)
qed

lemma find_range_down:
  "find P (range_down a b) = Some p \<longleftrightarrow>
     b < p \<and> p \<le> a \<and> P p \<and> (\<forall>q. p < q \<and> q \<le> a \<longrightarrow> \<not> P q)"
proof (induction "nat (a - b)" arbitrary: a)
  case 0
  then have "\<not> b < a" by simp
  then show ?case by (subst range_down_rec) auto
next
  case (Suc n)
  then have lt: "b < a" by linarith
  have n: "n = nat (a - 1 - b)" using Suc.hyps(2) by linarith
  note IH = Suc.hyps(1) [OF n]
  show ?case
  proof (cases "P a")
    case True
    have "find P (range_down a b) = Some a"
      using lt True by (subst range_down_rec) simp
    moreover have "(b < p \<and> p \<le> a \<and> P p \<and> (\<forall>q. p < q \<and> q \<le> a \<longrightarrow> \<not> P q)) \<longleftrightarrow> p = a"
    proof
      assume h: "b < p \<and> p \<le> a \<and> P p \<and> (\<forall>q. p < q \<and> q \<le> a \<longrightarrow> \<not> P q)"
      show "p = a"
      proof (rule ccontr)
        assume "p \<noteq> a"
        with h have "p < a \<and> a \<le> a" by simp
        with h have "\<not> P a" by blast
        with True show False by simp
      qed
    next
      assume "p = a"
      with True lt show "b < p \<and> p \<le> a \<and> P p \<and> (\<forall>q. p < q \<and> q \<le> a \<longrightarrow> \<not> P q)"
        by auto
    qed
    ultimately show ?thesis by auto
  next
    case False
    have "find P (range_down a b) = find P (range_down (a - 1) b)"
      using lt False by (subst range_down_rec) simp
    moreover have "(b < p \<and> p \<le> a \<and> P p \<and> (\<forall>q. p < q \<and> q \<le> a \<longrightarrow> \<not> P q)) \<longleftrightarrow>
        (b < p \<and> p \<le> a - 1 \<and> P p \<and> (\<forall>q. p < q \<and> q \<le> a - 1 \<longrightarrow> \<not> P q))"
    proof -
      have q: "q \<le> a \<longleftrightarrow> q \<le> a - 1 \<or> q = a" for q by linarith
      have "P p \<Longrightarrow> p \<le> a \<longleftrightarrow> p \<le> a - 1" using False q [of p] by auto
      moreover have "(\<forall>q. p < q \<and> q \<le> a \<longrightarrow> \<not> P q) \<longleftrightarrow> (\<forall>q. p < q \<and> q \<le> a - 1 \<longrightarrow> \<not> P q)"
        using False q by auto
      ultimately show ?thesis by blast
    qed
    ultimately show ?thesis using IH by simp
  qed
qed

lemma brackets_between:
  assumes mono: "monotonic_pages s" and pq: "p < q"
    and bp: "brackets s t1 p" and bq: "brackets s t2 q" and le: "t2 \<le> t1"
  shows "brackets s t1 q"
proof -
  let ?P = "set (page_dates s p)" and ?Q = "set (page_dates s q)"
  from bp have p: "?P \<noteq> {}" "t1 \<le> Max ?P" by (auto simp: brackets_def)
  from bq have q: "?Q \<noteq> {}" "Min ?Q \<le> t2" "t2 \<le> Max ?Q" by (auto simp: brackets_def)
  have "Max ?P \<in> ?P" "Min ?Q \<in> ?Q" using p(1) q(1) by simp_all
  then have "Max ?P \<le> Min ?Q" using mono pq by (auto simp: monotonic_pages_def)
  with p(2) q(2) le have "t1 = t2" by linarith
  with bq show ?thesis by simp
qed

text \<open>
  Claim C3, amended. Let the page dates be monotonic and let the window \<open>W2\<close> have a
  target date no later than that of \<open>W1\<close>, both windows ending at the same last page.
  Whenever the scrape of \<open>W2\<close> without a hint returns a start page, the scrape of \<open>W2\<close>
  with the result of \<open>W1\<close> as its hint returns the same start page.
\<close>

theorem hint_keeps_found_page:
  assumes mono: "monotonic_pages s"
    and nested: "now2 - timedelta_days days2 \<le> now1 - timedelta_days days1"
    and w1: "fst (scrape_time_period s now1 days1 t l None None req1) = Inr hint"
    and w2: "fst (scrape_time_period s now2 days2 t l None None req2) = Inr (Some p)"
  shows "fst (scrape_time_period s now2 days2 t l None hint req3) = Inr (Some p)"
proof (cases hint)
  case None
  note m2 = scrape_time_period_target [OF w2]
  from w2 None show ?thesis by (simp add: scrape_time_period_eq [OF m2])
next
  case (Some h)
  let ?t1 = "now1 - timedelta_days days1" and ?t2 = "now2 - timedelta_days days2"
  note m1 = scrape_time_period_target [OF w1] and m2 = scrape_time_period_target [OF w2]
  note scrape_time_period_eq = scrape_time_period_eq [OF m1] scrape_time_period_eq [OF m2]
  from w1 Some have "find (brackets s ?t1) (range_down l (l - 200)) = Some h"
    by (auto simp: scrape_time_period_eq split: option.splits if_splits)
  then have h: "h \<le> l" "brackets s ?t1 h" "\<forall>q. h < q \<and> q \<le> l \<longrightarrow> \<not> brackets s ?t1 q"
    by (simp_all add: find_range_down)
  from w2 have f2: "find (brackets s ?t2) (range_down l (l - 200)) = Some p"
    and c2: "window_combinations s t p l \<noteq> []"
    by (auto simp: scrape_time_period_eq split: option.splits if_splits)
  from f2 have p: "l - 200 < p" "p \<le> l" "brackets s ?t2 p"
    "\<forall>q. p < q \<and> q \<le> l \<longrightarrow> \<not> brackets s ?t2 q"
    by (simp_all add: find_range_down)
  have ph: "p \<le> h"
  proof (rule ccontr)
    assume "\<not> p \<le> h"
    then have "h < p" by simp
    from brackets_between [OF mono this h(2) p(3) nested] have "brackets s ?t1 p" .
    with h(3) \<open>h < p\<close> p(2) show False by blast
  qed
  have "find (brackets s ?t2) (range_down h (h - 200)) = Some p"
    using p ph h(1) by (auto simp: find_range_down)
  with c2 Some show ?thesis by (simp add: scrape_time_period_eq)
qed

lemma strip_replicate: "strip (replicate n CHR ''p'') = replicate n CHR ''p''"
proof (cases n)
  case 0
  then show ?thesis by (simp add: strip_def)
next
  case (Suc m)
  have "\<not> is_space CHR ''p''" by (simp add: is_space_def)
  then show ?thesis by (intro strip_id) (simp add: Suc last_replicate)
qed

lemma paced_site_dates:
  "page_dates (paced_site l pace) p = (if 1 \<le> p \<and> p \<le> l then [p * pace] else [])"
proof (cases "1 \<le> p \<and> p \<le> l")
  case True
  then have h: "page_html (paced_site l pace) p = replicate (nat p) CHR ''p''"
    by (simp add: page_html_def fetch_page_def paced_site_def)
  have m: "map (\<lambda>c. if c = CHR 0xA0 then CHR '' '' else c) (replicate (nat p) CHR ''p'')
      = replicate (nat p) CHR ''p''"
    by simp
  have "extract_dates_from_page (paced_site l pace) (replicate (nat p) CHR ''p'') = [p * pace]"
    using True
    by (simp add: extract_dates_from_page_def parse_forum_date_def strip_replicate m
        List.map_filter_simps paced_site_def)
  with True h show ?thesis by (simp add: page_dates_def)
next
  case False
  then have "page_html (paced_site l pace) p = []"
    by (auto simp: page_html_def fetch_page_def paced_site_def)
  with False show ?thesis by (simp add: page_dates_def)
qed

lemma paced_site_monotonic: "0 \<le> pace \<Longrightarrow> monotonic_pages (paced_site l pace)"
  by (auto simp: monotonic_pages_def paced_site_dates mult_right_mono)

lemma paced_brackets:
  "brackets (paced_site l pace) t p \<longleftrightarrow> 1 \<le> p \<and> p \<le> l \<and> p * pace = t"
  by (auto simp: brackets_def paced_site_dates)

lemma paced_window:
  assumes "1 \<le> p" "p \<le> l'" "l' \<le> l"
  shows "window_combinations (paced_site l pace) [] p l' \<noteq> []"
proof -
  have e: "extract_combinations [''WizardRod 1-60Hexa''] []
      = Inr [(''WizardRod'', ''1-60'', ''Hexa'')]"
    by code_simp
  have "page_html (paced_site l pace) p = replicate (nat p) CHR ''p''"
    using assms by (simp add: page_html_def fetch_page_def paced_site_def)
  moreover have "nat p \<noteq> 0" using assms by simp
  ultimately have f: "fetched (paced_site l pace) p" by (simp add: fetched_def)
  have c: "page_combinations (paced_site l pace) [] p = [(''WizardRod'', ''1-60'', ''Hexa'')]"
    using e by (simp add: page_combinations_def paced_site_def)
  have "p \<in> set (filter (fetched (paced_site l pace)) [p..l'])" using f assms by simp
  then have "page_combinations (paced_site l pace) [] p
      \<in> set (map (page_combinations (paced_site l pace) []) (filter (fetched (paced_site l pace)) [p..l']))"
    by simp
  with c show ?thesis by (auto simp: window_combinations_def)
qed

theorem hint_keeps_found_page_witness:
  "monotonic_pages (paced_site 3 10) \<and>
   (172800000010 - timedelta_days 2 \<le> 86400000020 - timedelta_days 1) \<and>
   fst (scrape_time_period (paced_site 3 10) 86400000020 1 [] 3 None None []) = Inr (Some 2) \<and>
   fst (scrape_time_period (paced_site 3 10) 172800000010 2 [] 3 None None []) = Inr (Some 1) \<and>
   fst (scrape_time_period (paced_site 3 10) 172800000010 2 [] 3 None (Some 2) [])
     = Inr (Some 1)"
proof -
  have m: "monotonic_pages (paced_site 3 10)" by (simp add: paced_site_monotonic)
  have n: "172800000010 - timedelta_days 2 \<le> 86400000020 - timedelta_days 1"
    by (simp add: timedelta_days_def)
  have a: "fst (scrape_time_period (paced_site 3 10) 86400000020 1 [] 3 None None [])
      = Inr (Some 2)"
    by code_simp
  have b: "fst (scrape_time_period (paced_site 3 10) 172800000010 2 [] 3 None None [])
      = Inr (Some 1)"
    by code_simp
  from hint_keeps_found_page [OF m n a b, of "[]"] m n a b show ?thesis by simp
qed

text \<open>
  Claim C3, as the spec states it, says that the hint never changes the result. Each
  search visits at most 200 pages counted from where it starts, so a search that starts
  at the hint reaches pages that the search from the last page gives up on. Take a forum
  of 300 pages with one post every 8 hours, the last one written now, 100 days after the
  origin. The 30-day window starts at page 210. The date of the 90-day window is on page
  30, the 271st page from the last one: without a hint the scrape of this window finds no
  start page; with the hint 210 it finds page 30.
\<close>

theorem hint_finds_page_beyond_budget:
  "monotonic_pages (paced_site 300 28800000000) \<and>
   (8640000000000 - timedelta_days 90 \<le> 8640000000000 - timedelta_days 30) \<and>
   fst (scrape_time_period (paced_site 300 28800000000) 8640000000000 30 [] 300 None None [])
     = Inr (Some 210) \<and>
   fst (scrape_time_period (paced_site 300 28800000000) 8640000000000 90 [] 300 None None [])
     = Inr None \<and>
   fst (scrape_time_period (paced_site 300 28800000000) 8640000000000 90 [] 300 None
          (Some 210) [])
     = Inr (Some 30)"
proof -
  let ?S = "paced_site 300 28800000000"
  have m: "monotonic_pages ?S" by (simp add: paced_site_monotonic)
  have n: "8640000000000 - timedelta_days 90 \<le> 8640000000000 - timedelta_days 30"
    by (simp add: timedelta_days_def)
  have br: "brackets ?S t p \<longleftrightarrow> 1 \<le> p \<and> p \<le> 300 \<and> p * 28800000000 = t" for t p
    by (simp add: paced_brackets)
  have f1: "find (brackets ?S (8640000000000 - timedelta_days 30)) (range_down 300 100)
      = Some 210"
    by (simp add: find_range_down br timedelta_days_def)
  have f2: "find (brackets ?S (8640000000000 - timedelta_days 90)) (range_down 300 100)
      = None"
  proof (cases "find (brackets ?S (8640000000000 - timedelta_days 90))
                  (range_down 300 100)")
    case None
    then show ?thesis .
  next
    case (Some p)
    then have False
      by (auto simp: find_range_down br timedelta_days_def)
    then show ?thesis ..
  qed
  have f3: "find (brackets ?S (8640000000000 - timedelta_days 90)) (range_down 210 10)
      = Some 30"
    by (simp add: find_range_down br timedelta_days_def)
  have d1: "minus_days 8640000000000 30 = Inr (8640000000000 - timedelta_days 30)"
    and d2: "minus_days 8640000000000 90 = Inr (8640000000000 - timedelta_days 90)"
    by (simp_all add: minus_days_def timedelta_days_def)
  have a: "fst (scrape_time_period ?S 8640000000000 30 [] 300 None None []) = Inr (Some 210)"
    by (simp add: scrape_time_period_eq [OF d1] f1 paced_window)
  have b: "fst (scrape_time_period ?S 8640000000000 90 [] 300 None None []) = Inr None"
    by (simp add: scrape_time_period_eq [OF d2] f2)
  have c: "fst (scrape_time_period ?S 8640000000000 90 [] 300 None (Some 210) [])
      = Inr (Some 30)"
    by (simp add: scrape_time_period_eq [OF d2] f3 paced_window)
  from m n a b c show ?thesis by simp
qed

section \<open>Counting the combinations\<close>

text \<open>
  \<open>generate_combination_counts\<close> reads the CSV file of the combinations and writes the
  file of their counts:
  \<^verbatim>\<open>
      try:
          with open(input_file, 'r', encoding='utf-8') as f:
              reader = csv.reader(f)
              next(reader)  # Skip header
              for row in reader:
                  if len(row) >= 3:
                      combinations.append((row[0], row[1], row[2]))
      except FileNotFoundError:
          return
      combo_counts = Counter(combinations)
      ...
          for combo, count in sorted(combo_counts.items(), key=lambda x: x[1], reverse=True):
              writer.writerow([combo[0], combo[1], combo[2], count])
  \<close>
  The input is the list of the rows that \<^verbatim>\<open>csv.reader\<close> yields, \<open>None\<close> when the file
  does not exist; the result is the list of the data rows written after the header
  \<^verbatim>\<open>Blades,Ratchets,Bits,Count\<close>, each as a combination and its count, \<open>None\<close> when
  nothing is written. \<^verbatim>\<open>next(reader)\<close> raises \<^verbatim>\<open>StopIteration\<close> on a file without rows.

  A \<^verbatim>\<open>Counter\<close> is a dict: it keeps its keys in the order of their first insertion, and
  counting an element again changes its count in place. \<^verbatim>\<open>sorted(..., reverse=True)\<close> is
  stable: elements with equal keys keep their order (the list is reversed, sorted
  stably in ascending order and reversed again).
\<close>

fun count_element :: "'a \<Rightarrow> ('a \<times> nat) list \<Rightarrow> ('a \<times> nat) list" where
  "count_element x [] = [(x, 1)]"
| "count_element x ((k, n) # d) =
     (if k = x then (k, n + 1) # d else (k, n) # count_element x d)"

definition Counter :: "'a list \<Rightarrow> ('a \<times> nat) list" where
  "Counter xs = foldl (\<lambda>d x. count_element x d) [] xs"

definition sorted_reverse :: "('a \<Rightarrow> nat) \<Rightarrow> 'a list \<Rightarrow> 'a list" where
  "sorted_reverse key xs = rev (sort_key key (rev xs))"

definition generate_combination_counts ::
  "string list list option \<Rightarrow> py_error + (combination \<times> nat) list option" where
  "generate_combination_counts input_file =
     (case input_file of
        None \<Rightarrow> Inr None
      | Some [] \<Rightarrow> Inl StopIteration
      | Some (header # rows) \<Rightarrow>
          (let combinations = map (\<lambda>row. (row ! 0, row ! 1, row ! 2))
                                (filter (\<lambda>row. 3 \<le> length row) rows);
               combo_counts = Counter combinations
           in Inr (Some (sorted_reverse snd combo_counts))))"

text \<open>The report of the counts of a list \<open>xs\<close>, in the words of the spec: the entries are
  in descending order of their counts, and the entries of any one count are exactly the
  elements of \<open>xs\<close> that occur that many times, in the order of their first
  occurrence.\<close>

definition first_seen :: "'a list \<Rightarrow> 'a list" where
  "first_seen xs = rev (remdups (rev xs))"

definition count_report :: "'a list \<Rightarrow> ('a \<times> nat) list \<Rightarrow> bool" where
  "count_report xs out \<longleftrightarrow>
     sorted_wrt (\<lambda>a b. snd b \<le> snd a) out \<and>
     (\<forall>n. map fst (filter (\<lambda>e. snd e = n) out) = filter (\<lambda>k. count_list xs k = n) (first_seen xs))"

lemma first_seen_snoc:
  "first_seen (xs @ [x]) = (if x \<in> set xs then first_seen xs else first_seen xs @ [x])"
  by (simp add: first_seen_def)

lemma set_first_seen: "set (first_seen xs) = set xs"
  by (simp add: first_seen_def)

lemma count_element_map:
  "distinct ks \<Longrightarrow>
   count_element x (map (\<lambda>k. (k, f k)) ks) =
     (if x \<in> set ks then map (\<lambda>k. (k, if k = x then f k + 1 else f k)) ks
      else map (\<lambda>k. (k, f k)) ks @ [(x, 1)])"
  by (induction ks) auto

lemma distinct_first_seen: "distinct (first_seen xs)"
  by (simp add: first_seen_def)

lemma Counter_eq: "Counter xs = map (\<lambda>k. (k, count_list xs k)) (first_seen xs)"
proof (induction xs rule: rev_induct)
  case Nil
  then show ?case by (simp add: Counter_def first_seen_def)
next
  case (snoc x xs)
  have "Counter (xs @ [x]) = count_element x (Counter xs)" by (simp add: Counter_def)
  also have "\<dots> = count_element x (map (\<lambda>k. (k, count_list xs k)) (first_seen xs))"
    by (simp add: snoc.IH)
  also have "\<dots> = map (\<lambda>k. (k, count_list (xs @ [x]) k)) (first_seen (xs @ [x]))"
    by (auto simp: count_element_map distinct_first_seen first_seen_snoc set_first_seen)
  finally show ?case .
qed

lemma sorted_reverse_sorted: "sorted_wrt (\<lambda>a b. key b \<le> key a) (sorted_reverse key xs)"
proof -
  have "sorted (map key (sort_key key (rev xs)))" by simp
  then have "sorted_wrt (\<lambda>a b. key a \<le> key b) (sort_key key (rev xs))"
    by (simp add: sorted_map)
  then show ?thesis by (simp add: sorted_reverse_def sorted_wrt_rev)
qed

lemma sorted_reverse_stable:
  "filter (\<lambda>e. key e = n) (sorted_reverse key xs) = filter (\<lambda>e. key e = n) xs"
  by (simp add: sorted_reverse_def rev_filter [symmetric] sort_key_stable)

lemma sorted_reverse_Counter: "count_report xs (sorted_reverse snd (Counter xs))"
proof -
  have "map fst (filter (\<lambda>e. snd e = n) (sorted_reverse snd (Counter xs))) =
      filter (\<lambda>k. count_list xs k = n) (first_seen xs)" for n
  proof -
    have "filter (\<lambda>e. snd e = n) (sorted_reverse snd (Counter xs)) =
        filter (\<lambda>e. snd e = n) (Counter xs)"
      by (rule sorted_reverse_stable)
    then show ?thesis by (simp add: Counter_eq filter_map comp_def)
  qed
  then show ?thesis by (simp add: count_report_def sorted_reverse_sorted)
qed

text \<open>
  Claim C8. For every input file with a header row, the rows of the combination counts
  are sorted by descending count, and rows with the same count are in the order in
  which their combinations first occur in the input (a fixed tie-break). For the three
  triples of the spec the report is \<open>((A, 1-1, X), 2)\<close> followed by \<open>((B, 2-2, Y), 1)\<close>.
\<close>

theorem combination_counts_sorted:
  "(\<exists>out. generate_combination_counts (Some (header # rows)) = Inr (Some out) \<and>
      count_report (map (\<lambda>row. (row ! 0, row ! 1, row ! 2))
                      (filter (\<lambda>row. 3 \<le> length row) rows)) out) \<and>
   generate_combination_counts
     (Some [[''Blades'', ''Ratchets'', ''Bits''],
            [''A'', ''1-1'', ''X''], [''A'', ''1-1'', ''X''], [''B'', ''2-2'', ''Y'']])
     = Inr (Some [((''A'', ''1-1'', ''X''), 2), ((''B'', ''2-2'', ''Y''), 1)])"
proof (intro conjI)
  show "\<exists>out. generate_combination_counts (Some (header # rows)) = Inr (Some out) \<and>
      count_report (map (\<lambda>row. (row ! 0, row ! 1, row ! 2))
                      (filter (\<lambda>row. 3 \<le> length row) rows)) out"
    by (simp add: generate_combination_counts_def sorted_reverse_Counter)
  show "generate_combination_counts
     (Some [[''Blades'', ''Ratchets'', ''Bits''],
            [''A'', ''1-1'', ''X''], [''A'', ''1-1'', ''X''], [''B'', ''2-2'', ''Y'']])
     = Inr (Some [((''A'', ''1-1'', ''X''), 2), ((''B'', ''2-2'', ''Y''), 1)])"
    by code_simp
qed

end
